theory Spec2Isabelle
  imports Complex_Main "HOL-Library.AList" "HOL-Library.Multiset"
begin

section \<open>Delta-conformity of dynetx (\<^verbatim>\<open>dynetx/algorithms/assortativity.py\<close>)\<close>

text \<open>
  The module computes, for every node of a snapshot of a dynamic graph, a score built from
  the labels of the nodes it reaches over time-respecting paths. The embedding follows the
  Python text function by function.

  \<^item> Python numbers are modelled over exact arithmetic: every score is a \<^typ>\<open>real\<close>,
    so rounding and overflow of floats are outside the model.
  \<^item> A \<^verbatim>\<open>dict\<close> is an association list read with \<^const>\<open>map_of\<close> and written with
    \<^const>\<open>AList.update\<close>, which replaces the value of a key in place and appends a new key
    at the end, as Python's insertion-ordered dictionaries do.
  \<^item> Every \<^verbatim>\<open>raise\<close> and every failing lookup or division is a value \<open>Inl e\<close> of
    the result type \<open>pyerr + 'a\<close>.
  \<^item> The graph classes (\<^verbatim>\<open>DynGraph\<close>, \<^verbatim>\<open>time_slice\<close>, \<^verbatim>\<open>neighbors\<close>),
    the path enumeration (\<^verbatim>\<open>all_time_respecting_paths\<close>, \<^verbatim>\<open>annotate_paths\<close>) and
    \<^verbatim>\<open>temporal_snapshots_ids\<close> live in other modules; they appear as fields of the records
    \<open>snapshot\<close> and \<open>dyngraph\<close>, that is, as parameters of the functions modelled here.
\<close>

subsection \<open>Errors and dictionaries\<close>

datatype pyerr =
    ValueError string
  | KeyError
  | ZeroDivisionError
  | NetworkXError
  | ExternalError string

definition bind_err :: "pyerr + 'a \<Rightarrow> ('a \<Rightarrow> pyerr + 'b) \<Rightarrow> pyerr + 'b" where
  "bind_err m f = (case m of Inl e \<Rightarrow> Inl e | Inr x \<Rightarrow> f x)"

type_synonym ('k, 'v) dict = "('k \<times> 'v) list"

text \<open>\<^verbatim>\<open>d[k]\<close> on a plain dictionary: a missing key raises \<^verbatim>\<open>KeyError\<close>.\<close>

definition dict_get :: "('k, 'v) dict \<Rightarrow> 'k \<Rightarrow> pyerr + 'v" where
  "dict_get d k = (case map_of d k of None \<Rightarrow> Inl KeyError | Some v \<Rightarrow> Inr v)"

text \<open>Reading \<^verbatim>\<open>d[k]\<close> on a \<^verbatim>\<open>defaultdict\<close> whose factory returns \<open>dflt\<close>.\<close>

definition dict_get_default :: "'v \<Rightarrow> ('k, 'v) dict \<Rightarrow> 'k \<Rightarrow> 'v" where
  "dict_get_default dflt d k = (case map_of d k of None \<Rightarrow> dflt | Some v \<Rightarrow> v)"

text \<open>\<^verbatim>\<open>len(d)\<close>: the number of distinct keys.\<close>

definition dict_len :: "('k, 'v) dict \<Rightarrow> nat" where
  "dict_len d = length (remdups (map fst d))"

subsection \<open>The snapshot and the hierarchies\<close>

text \<open>
  What the module reads of the static snapshot \<^verbatim>\<open>g\<close>: \<^verbatim>\<open>g.nodes()\<close>, the attribute
  dictionaries \<^verbatim>\<open>g._node\<close> and the adjacency behind \<^verbatim>\<open>g.neighbors(v)\<close>, which raises
  \<^verbatim>\<open>NetworkXError\<close> for a node that is not in the graph.
\<close>

record ('n, 'v) snapshot =
  g_nodes :: "'n list"
  g_node :: "('n, (string, 'v) dict) dict"
  g_adj :: "('n, 'n list) dict"

type_synonym 'v hierarchies = "(string, ('v, real) dict) dict option"

text \<open>\<^verbatim>\<open>g._node[v][label]\<close>\<close>

definition node_label :: "('n, 'v) snapshot \<Rightarrow> 'n \<Rightarrow> string \<Rightarrow> pyerr + 'v" where
  "node_label g v label = bind_err (dict_get (g_node g) v) (\<lambda>attrs. dict_get attrs label)"

text \<open>\<^verbatim>\<open>list(g.neighbors(v))\<close>\<close>

definition neighbors :: "('n, 'v) snapshot \<Rightarrow> 'n \<Rightarrow> pyerr + 'n list" where
  "neighbors g v = (case map_of (g_adj g) v of None \<Rightarrow> Inl NetworkXError | Some ns \<Rightarrow> Inr ns)"

subsection \<open>\<^verbatim>\<open>__distance\<close>\<close>

text \<open>
  \<^verbatim>\<open>
  if hierarchies is None or label not in hierarchies:
      return -1
  return -abs(hierarchies[label][v1] - hierarchies[label][v2]) / (len(hierarchies[label]) - 1)
  \<close>
  The two rank lookups come first and raise \<^verbatim>\<open>KeyError\<close>; the division raises
  \<^verbatim>\<open>ZeroDivisionError\<close> for a hierarchy of one value.
\<close>

definition distance :: "string \<Rightarrow> 'v \<Rightarrow> 'v \<Rightarrow> 'v hierarchies \<Rightarrow> pyerr + real" where
  "distance label v1 v2 hierarchies =
     (case hierarchies of
        None \<Rightarrow> Inr (- 1)
      | Some hs \<Rightarrow>
         (case map_of hs label of
            None \<Rightarrow> Inr (- 1)
          | Some h \<Rightarrow>
              bind_err (dict_get h v1) (\<lambda>r1.
              bind_err (dict_get h v2) (\<lambda>r2.
                if int (dict_len h) - 1 = 0 then Inl ZeroDivisionError
                else Inr (- \<bar>r1 - r2\<bar> / real_of_int (int (dict_len h) - 1))))))"

subsection \<open>\<^verbatim>\<open>__label_frequency\<close>\<close>

text \<open>
  Line 27, the agreement indicator of a candidate \<open>v\<close>:
  \<^verbatim>\<open>1 if a_u == g._node[v][label] else __distance(label, a_u, g._node[v][label], hierarchies)\<close>
\<close>

definition indicator :: "('n, 'v) snapshot \<Rightarrow> string \<Rightarrow> 'v \<Rightarrow> 'v hierarchies \<Rightarrow> 'n \<Rightarrow> pyerr + real" where
  "indicator g label a_u hierarchies v =
     bind_err (node_label g v label) (\<lambda>a_v.
       if a_u = a_v then Inr 1 else distance label a_u a_v hierarchies)"

text \<open>
  The list comprehension of line 30,
  \<^verbatim>\<open>[x for x in v_neigh if g._node[x][label] == g._node[v][label]]\<close>, reads the label of
  each neighbour and fails at the first one that has none; only its length is used.
\<close>

fun count_same :: "('n, 'v) snapshot \<Rightarrow> string \<Rightarrow> 'n \<Rightarrow> 'n list \<Rightarrow> pyerr + nat" where
  "count_same g label v [] = Inr 0"
| "count_same g label v (x # xs) =
     bind_err (node_label g x label) (\<lambda>a_x.
     bind_err (node_label g v label) (\<lambda>a_v.
     bind_err (count_same g label v xs) (\<lambda>c.
       Inr (if a_x = a_v then Suc c else c))))"

text \<open>
  Lines 28 to 31, the homogeneity weight of \<open>v\<close>:
  \<^verbatim>\<open>
  v_neigh = list(g.neighbors(v))
  f_label = (len([x for x in v_neigh if ...]) / len(v_neigh))
  f_label = f_label if f_label > 0 else 1
  \<close>
  The division raises \<^verbatim>\<open>ZeroDivisionError\<close> when \<open>v\<close> has no neighbour.
\<close>

definition f_label :: "('n, 'v) snapshot \<Rightarrow> string \<Rightarrow> 'n \<Rightarrow> pyerr + real" where
  "f_label g label v =
     bind_err (neighbors g v) (\<lambda>v_neigh.
     bind_err (count_same g label v v_neigh) (\<lambda>c.
       if length v_neigh = 0 then Inl ZeroDivisionError
       else (let f = real c / real (length v_neigh) in Inr (if f > 0 then f else 1))))"

text \<open>The body of the loop over \<open>nodes\<close> (lines 27 to 32) computes the value stored at \<open>sgn[v]\<close>.\<close>

definition sgn_entry :: "('n, 'v) snapshot \<Rightarrow> string \<Rightarrow> 'v \<Rightarrow> 'v hierarchies \<Rightarrow> 'n \<Rightarrow> pyerr + real" where
  "sgn_entry g label a_u hierarchies v =
     bind_err (indicator g label a_u hierarchies v) (\<lambda>s.
     bind_err (f_label g label v) (\<lambda>f. Inr (s * f)))"

text \<open>The loop \<^verbatim>\<open>for v in nodes\<close>, filling the dictionary \<^verbatim>\<open>sgn\<close> (here \<open>sg\<close>).\<close>

fun sgn_loop :: "('n, 'v) snapshot \<Rightarrow> string \<Rightarrow> 'v \<Rightarrow> 'v hierarchies \<Rightarrow> 'n list
    \<Rightarrow> ('n, real) dict \<Rightarrow> pyerr + ('n, real) dict" where
  "sgn_loop g label a_u hierarchies [] sg = Inr sg"
| "sgn_loop g label a_u hierarchies (v # vs) sg =
     bind_err (sgn_entry g label a_u hierarchies v) (\<lambda>x.
       sgn_loop g label a_u hierarchies vs (AList.update v x sg))"

text \<open>
  The loop \<^verbatim>\<open>for label in labels\<close> with the running product \<open>s\<close>; line 33 is
  \<^verbatim>\<open>s *= sum(sgn.values()) / len(nodes)\<close>, which raises \<^verbatim>\<open>ZeroDivisionError\<close> for an
  empty list of nodes.
\<close>

fun label_loop :: "('n, 'v) snapshot \<Rightarrow> 'n \<Rightarrow> 'n list \<Rightarrow> 'v hierarchies \<Rightarrow> string list
    \<Rightarrow> real \<Rightarrow> pyerr + real" where
  "label_loop g u nodes hierarchies [] s = Inr s"
| "label_loop g u nodes hierarchies (label # labels) s =
     bind_err (node_label g u label) (\<lambda>a_u.
     bind_err (sgn_loop g label a_u hierarchies nodes []) (\<lambda>sg.
       if length nodes = 0 then Inl ZeroDivisionError
       else label_loop g u nodes hierarchies labels
              (s * (sum_list (map snd sg) / real (length nodes)))))"

definition label_frequency :: "('n, 'v) snapshot \<Rightarrow> 'n \<Rightarrow> 'n list \<Rightarrow> string list
    \<Rightarrow> 'v hierarchies \<Rightarrow> pyerr + real" where
  "label_frequency g u nodes labels hierarchies = label_loop g u nodes hierarchies labels 1"

text \<open>
  The specification's wording of the weight, for comparison with \<open>f_label\<close>: the fraction
  of the direct neighbours of \<open>v\<close> in the snapshot that share the value of \<open>v\<close> for the
  label.
\<close>

definition homogeneous_share :: "('n, 'v) snapshot \<Rightarrow> string \<Rightarrow> 'n \<Rightarrow> real" where
  "homogeneous_share g label v =
     (let ns = dict_get_default [] (g_adj g) v
      in real (length (filter (\<lambda>x. node_label g x label = node_label g v label) ns)) / real (length ns))"

subsection \<open>Damping factors and \<^verbatim>\<open>__normalize\<close>\<close>

text \<open>
  A damping factor is a Python \<^verbatim>\<open>int\<close> or \<^verbatim>\<open>float\<close>. The result dictionaries are keyed
  by \<^verbatim>\<open>str(alpha)\<close>; \<^verbatim>\<open>str\<close> is one-to-one on the integers and on the floats and never
  prints an integer like a float, so the key \<^verbatim>\<open>str(alpha)\<close> is modelled by the tagged
  number itself.
\<close>

datatype alpha = IntAlpha int | FloatAlpha real

fun alpha_val :: "alpha \<Rightarrow> real" where
  "alpha_val (IntAlpha i) = real_of_int i"
| "alpha_val (FloatAlpha x) = x"

text \<open>
  \<^verbatim>\<open>d ** x\<close> for an integer base \<open>d\<close>. Both uses in the module have \<open>d \<ge> 1\<close>
  (\<^verbatim>\<open>range(1, max_dist + 1)\<close> and the guard \<^verbatim>\<open>dist != 0\<close>), where the power is
  \<open>d powr x\<close>.
\<close>

definition py_pow :: "nat \<Rightarrow> real \<Rightarrow> real" where
  "py_pow d x = real d powr x"

text \<open>\<^verbatim>\<open>norm = sum([(d ** -alpha) for d in range(1, max_dist + 1)])\<close>\<close>

definition norm_of :: "alpha \<Rightarrow> nat \<Rightarrow> real" where
  "norm_of a max_dist = sum_list (map (\<lambda>d. py_pow d (- alpha_val a)) [1 ..< max_dist + 1])"

type_synonym 'n scores = "(alpha, (string, ('n, real) dict) dict) dict"

text \<open>
  An augmented assignment \<^verbatim>\<open>scores[a][p][u] op= ...\<close>: the three lookups raise
  \<^verbatim>\<open>KeyError\<close>, then \<open>f\<close> computes the new value (or raises), which is stored in the
  innermost dictionary. The nested dictionaries are built by comprehensions, so no two
  keys share one inner dictionary.
\<close>

definition modify_entry :: "(real \<Rightarrow> pyerr + real) \<Rightarrow> alpha \<Rightarrow> string \<Rightarrow> 'n \<Rightarrow> 'n scores
    \<Rightarrow> pyerr + 'n scores" where
  "modify_entry f a p u scores =
     bind_err (dict_get scores a) (\<lambda>pm.
     bind_err (dict_get pm p) (\<lambda>nm.
     bind_err (dict_get nm u) (\<lambda>x.
     bind_err (f x) (\<lambda>y.
       Inr (AList.update a (AList.update p (AList.update u y nm) pm) scores)))))"

text \<open>\<^verbatim>\<open>x / norm\<close>, true division.\<close>

definition py_div :: "real \<Rightarrow> real \<Rightarrow> pyerr + real" where
  "py_div x y = (if y = 0 then Inl ZeroDivisionError else Inr (x / y))"

text \<open>
  \<^verbatim>\<open>
  for profile in scores[str(alpha)]:
      scores[str(alpha)][profile][u] /= norm
  \<close>
\<close>

fun normalize_profiles :: "'n \<Rightarrow> alpha \<Rightarrow> real \<Rightarrow> string list \<Rightarrow> 'n scores \<Rightarrow> pyerr + 'n scores" where
  "normalize_profiles u a nrm [] scores = Inr scores"
| "normalize_profiles u a nrm (profile # ps) scores =
     bind_err (modify_entry (\<lambda>x. py_div x nrm) a profile u scores) (\<lambda>scores'.
       normalize_profiles u a nrm ps scores')"

text \<open>\<^verbatim>\<open>__normalize(u, scores, max_dist, alphas)\<close>\<close>

fun normalize_scores :: "'n \<Rightarrow> 'n scores \<Rightarrow> nat \<Rightarrow> alpha list \<Rightarrow> pyerr + 'n scores" where
  "normalize_scores u scores max_dist [] = Inr scores"
| "normalize_scores u scores max_dist (a # alphas) =
     bind_err (dict_get scores a) (\<lambda>pm.
     bind_err (normalize_profiles u a (norm_of a max_dist) (map fst pm) scores) (\<lambda>scores'.
       normalize_scores u scores' max_dist alphas))"

subsection \<open>\<^verbatim>\<open>delta_conformity\<close>\<close>

text \<open>
  The dynamic graph as the module uses it: \<^verbatim>\<open>dn.temporal_snapshots_ids(dg)\<close>,
  \<^verbatim>\<open>dg.time_slice(t_from, t_to)\<close>, and the path enumeration on a snapshot. The last
  stands for lines 135 to 139: for every key \<open>k\<close> of
  \<^verbatim>\<open>all_time_respecting_paths(g, start, delta + start)\<close>, in order, the pair
  \<open>(k[0], k[1])\<close> and \<^verbatim>\<open>len(annotate_paths(v)[path_type])\<close>.
\<close>

record ('n, 'v) dyngraph =
  temporal_snapshots_ids :: "int list"
  time_slice :: "int \<Rightarrow> int \<Rightarrow> pyerr + ('n, 'v) snapshot"
  path_lengths :: "('n, 'v) snapshot \<Rightarrow> int \<Rightarrow> int \<Rightarrow> string \<Rightarrow> pyerr + (('n \<times> 'n) \<times> nat) list"

text \<open>\<^verbatim>\<open>itertools.combinations(xs, k)\<close>, in the order in which it yields.\<close>

fun combinations :: "'a list \<Rightarrow> nat \<Rightarrow> 'a list list" where
  "combinations xs 0 = [[]]"
| "combinations [] (Suc k) = []"
| "combinations (x # xs) (Suc k) = map ((#) x) (combinations xs k) @ combinations xs (Suc k)"

text \<open>
  \<^verbatim>\<open>
  profiles = []
  for i in range(1, profile_size + 1):
      profiles.extend(combinations(labels, i))
  \<close>
\<close>

definition make_profiles :: "string list \<Rightarrow> int \<Rightarrow> string list list" where
  "make_profiles labels profile_size = concat (map (\<lambda>i. combinations labels (nat i)) [1 .. profile_size])"

text \<open>\<^verbatim>\<open>sep.join(xs)\<close>\<close>

fun join :: "string \<Rightarrow> string list \<Rightarrow> string" where
  "join sep [] = []"
| "join sep [x] = x"
| "join sep (x # y # ys) = x @ sep @ join sep (y # ys)"

text \<open>A dictionary comprehension \<^verbatim>\<open>{kf(x): vf(x) for x in xs}\<close>.\<close>

definition dict_comp :: "('x \<Rightarrow> 'k) \<Rightarrow> ('x \<Rightarrow> 'v) \<Rightarrow> 'x list \<Rightarrow> ('k, 'v) dict" where
  "dict_comp kf vf xs = fold (\<lambda>x d. AList.update (kf x) (vf x) d) xs []"

text \<open>
  Line 133:
  \<^verbatim>\<open>res = {str(a): {"_".join(profile): {n: 0 for n in g.nodes()} for profile in profiles} for a in alphas}\<close>
\<close>

definition init_res :: "'n list \<Rightarrow> string list list \<Rightarrow> alpha list \<Rightarrow> 'n scores" where
  "init_res ns profiles alphas =
     dict_comp (\<lambda>a. a) (\<lambda>a. dict_comp (join ''_'') (\<lambda>profile. dict_comp (\<lambda>n. n) (\<lambda>n. 0) ns) profiles) alphas"

text \<open>
  Lines 137 to 139: \<^verbatim>\<open>distances[k[0]][k[1]] = len(...)\<close> on a \<^verbatim>\<open>defaultdict\<close> of
  \<^verbatim>\<open>defaultdict\<close>s.
\<close>

definition make_distances :: "(('n \<times> 'n) \<times> nat) list \<Rightarrow> ('n, ('n, nat) dict) dict" where
  "make_distances sp =
     fold (\<lambda>((a, b), d) D. AList.update a (AList.update b d (dict_get_default [] D a)) D) sp []"

text \<open>
  Lines 145 to 147:
  \<^verbatim>\<open>
  dist_to_nodes = defaultdict(list)
  for node, dist in sp.items():
      dist_to_nodes[dist].append(node)
  \<close>
\<close>

definition shells_of :: "('n, nat) dict \<Rightarrow> (nat, 'n list) dict" where
  "shells_of sp =
     fold (\<lambda>(node, dst) d. AList.update dst (dict_get_default [] d dst @ [node]) d) sp []"

text \<open>
  Lines 155 to 158:
  \<^verbatim>\<open>
  for alpha in alphas:
      partial = sim / (dist ** alpha)
      p_name = "_".join(profile)
      res[str(alpha)][p_name][u] += partial
  \<close>
\<close>

fun alpha_loop :: "'n \<Rightarrow> string \<Rightarrow> real \<Rightarrow> nat \<Rightarrow> alpha list \<Rightarrow> 'n scores \<Rightarrow> pyerr + 'n scores" where
  "alpha_loop u p_name sim dst [] res = Inr res"
| "alpha_loop u p_name sim dst (a # alphas) res =
     bind_err (modify_entry (\<lambda>x. Inr (x + sim / py_pow dst (alpha_val a))) a p_name u res) (\<lambda>res'.
       alpha_loop u p_name sim dst alphas res')"

text \<open>Lines 152 to 158: \<^verbatim>\<open>for profile in profiles\<close>, for one shell.\<close>

fun profile_loop :: "('n, 'v) snapshot \<Rightarrow> 'v hierarchies \<Rightarrow> 'n \<Rightarrow> alpha list \<Rightarrow> nat \<Rightarrow> 'n list
    \<Rightarrow> string list list \<Rightarrow> 'n scores \<Rightarrow> pyerr + 'n scores" where
  "profile_loop g hierarchies u alphas dst nodes [] res = Inr res"
| "profile_loop g hierarchies u alphas dst nodes (profile # ps) res =
     bind_err (label_frequency g u nodes profile hierarchies) (\<lambda>sim.
     bind_err (alpha_loop u (join ''_'' profile) sim dst alphas res) (\<lambda>res'.
       profile_loop g hierarchies u alphas dst nodes ps res'))"

text \<open>Lines 150 to 158: \<^verbatim>\<open>for dist, nodes in sp.items(): if dist != 0: ...\<close>\<close>

fun shell_loop :: "('n, 'v) snapshot \<Rightarrow> 'v hierarchies \<Rightarrow> 'n \<Rightarrow> alpha list \<Rightarrow> string list list
    \<Rightarrow> (nat, 'n list) dict \<Rightarrow> 'n scores \<Rightarrow> pyerr + 'n scores" where
  "shell_loop g hierarchies u alphas profiles [] res = Inr res"
| "shell_loop g hierarchies u alphas profiles ((dst, nodes) # sp) res =
     (if dst \<noteq> 0
      then bind_err (profile_loop g hierarchies u alphas dst nodes profiles res) (\<lambda>res'.
             shell_loop g hierarchies u alphas profiles sp res')
      else shell_loop g hierarchies u alphas profiles sp res)"

text \<open>
  The body of \<^verbatim>\<open>for u in tqdm(g.nodes())\<close>, lines 143 to 161; \<^verbatim>\<open>distances[u]\<close> reads a
  \<^verbatim>\<open>defaultdict\<close>, and \<^verbatim>\<open>__normalize\<close> runs with \<^verbatim>\<open>max(sp.keys())\<close> when \<open>u\<close> has a
  shell.
\<close>

definition node_step :: "('n, 'v) snapshot \<Rightarrow> 'v hierarchies \<Rightarrow> alpha list \<Rightarrow> string list list
    \<Rightarrow> ('n, ('n, nat) dict) dict \<Rightarrow> 'n \<Rightarrow> 'n scores \<Rightarrow> pyerr + 'n scores" where
  "node_step g hierarchies alphas profiles distances u res =
     (let sp = shells_of (dict_get_default [] distances u) in
      bind_err (shell_loop g hierarchies u alphas profiles sp res) (\<lambda>res'.
        if length sp > 0 then normalize_scores u res' (Max (set (map fst sp))) alphas
        else Inr res'))"

fun node_loop :: "('n, 'v) snapshot \<Rightarrow> 'v hierarchies \<Rightarrow> alpha list \<Rightarrow> string list list
    \<Rightarrow> ('n, ('n, nat) dict) dict \<Rightarrow> 'n list \<Rightarrow> 'n scores \<Rightarrow> pyerr + 'n scores" where
  "node_loop g hierarchies alphas profiles distances [] res = Inr res"
| "node_loop g hierarchies alphas profiles distances (u # us) res =
     bind_err (node_step g hierarchies alphas profiles distances u res) (\<lambda>res'.
       node_loop g hierarchies alphas profiles distances us res')"

text \<open>
  \<^verbatim>\<open>delta_conformity(dg, start, delta, alphas, labels, profile_size, hierarchies, path_type)\<close>.
  Lines 116 to 131 tabulate the frequency of the attribute values into two dictionaries that
  nothing reads afterwards; they are left out.
\<close>

definition delta_conformity :: "('n, 'v) dyngraph \<Rightarrow> int \<Rightarrow> int \<Rightarrow> alpha list \<Rightarrow> string list \<Rightarrow> int
    \<Rightarrow> 'v hierarchies \<Rightarrow> string \<Rightarrow> pyerr + 'n scores" where
  "delta_conformity dg start delta alphas labels profile_size hierarchies path_type =
     (if profile_size > int (length labels)
      then Inl (ValueError ''profile_size must be <= len(labels)'')
      else if length alphas < 1 \<or> length labels < 1
      then Inl (ValueError ''At list one value must be specified for both alphas and labels'')
      else
        (let profiles = make_profiles labels profile_size in
         bind_err (time_slice dg start (start + delta)) (\<lambda>g.
           (let res = init_res (g_nodes g) profiles alphas in
            bind_err (path_lengths dg g start (delta + start) path_type) (\<lambda>sp.
              node_loop g hierarchies alphas profiles (make_distances sp) (g_nodes g) res)))))"

subsection \<open>\<^verbatim>\<open>sliding_delta_conformity\<close>\<close>

type_synonym 'n series = "(alpha, (string, ('n, (int \<times> real) list) dict) dict) dict"

text \<open>
  \<^verbatim>\<open>alpha_attribute_node_to_seq[alpha][attribute][n].append(x)\<close> on the nested
  \<^verbatim>\<open>defaultdict\<close>: each level that is missing is created.
\<close>

definition series_append :: "alpha \<Rightarrow> string \<Rightarrow> 'n \<Rightarrow> int \<times> real \<Rightarrow> 'n series \<Rightarrow> 'n series" where
  "series_append a attribute n x S =
     (let data = dict_get_default [] S a;
          node_values = dict_get_default [] data attribute;
          old = dict_get_default [] node_values n
      in AList.update a (AList.update attribute (AList.update n (old @ [x]) node_values) data) S)"

text \<open>Lines 208 to 211, the three loops over the items of one window's result.\<close>

definition append_window :: "int \<Rightarrow> 'n scores \<Rightarrow> 'n series \<Rightarrow> 'n series" where
  "append_window ts dconf S =
     fold (\<lambda>(a, data).
       fold (\<lambda>(attribute, node_values).
         fold (\<lambda>(n, v). series_append a attribute n (ts, v)) node_values) data) dconf S"

text \<open>
  The loop \<^verbatim>\<open>for t in tids: if t + delta < tids[-1]: ...\<close>; \<^verbatim>\<open>tids[-1]\<close> is read
  inside the loop only, where \<open>tids\<close> is not empty.
\<close>

fun window_loop :: "('n, 'v) dyngraph \<Rightarrow> int \<Rightarrow> alpha list \<Rightarrow> string list \<Rightarrow> int
    \<Rightarrow> 'v hierarchies \<Rightarrow> string \<Rightarrow> int list \<Rightarrow> int list \<Rightarrow> 'n series \<Rightarrow> pyerr + 'n series" where
  "window_loop dg delta alphas labels profile_size hierarchies path_type tids [] S = Inr S"
| "window_loop dg delta alphas labels profile_size hierarchies path_type tids (t # ts) S =
     (if t + delta < last tids
      then bind_err (delta_conformity dg t delta alphas labels profile_size hierarchies path_type)
             (\<lambda>dconf. window_loop dg delta alphas labels profile_size hierarchies path_type tids ts
                (append_window (t + delta) dconf S))
      else window_loop dg delta alphas labels profile_size hierarchies path_type tids ts S)"

definition sliding_delta_conformity :: "('n, 'v) dyngraph \<Rightarrow> int \<Rightarrow> alpha list \<Rightarrow> string list \<Rightarrow> int
    \<Rightarrow> 'v hierarchies \<Rightarrow> string \<Rightarrow> pyerr + 'n series" where
  "sliding_delta_conformity dg delta alphas labels profile_size hierarchies path_type =
     (let tids = temporal_snapshots_ids dg in
      window_loop dg delta alphas labels profile_size hierarchies path_type tids tids [])"

subsection \<open>Reading a result\<close>

text \<open>Reading \<^verbatim>\<open>res[str(a)][p][u]\<close>; \<open>None\<close> where a key is missing.\<close>

definition score_at :: "'n scores \<Rightarrow> alpha \<Rightarrow> string \<Rightarrow> 'n \<Rightarrow> real option" where
  "score_at res a p u =
     (case map_of res a of
        None \<Rightarrow> None
      | Some pm \<Rightarrow> (case map_of pm p of None \<Rightarrow> None | Some nm \<Rightarrow> map_of nm u))"

text \<open>The keys of \<^verbatim>\<open>res[str(a)]\<close>, in their order.\<close>

definition profile_keys :: "'n scores \<Rightarrow> alpha \<Rightarrow> string list option" where
  "profile_keys res a = map_option (map fst) (map_of res a)"

text \<open>Two results with the same keys on every level.\<close>

definition same_shape :: "'n scores \<Rightarrow> 'n scores \<Rightarrow> bool" where
  "same_shape res res' \<longleftrightarrow>
     (\<forall>a. profile_keys res' a = profile_keys res a)
     \<and> (\<forall>a p n. score_at res' a p n = None \<longleftrightarrow> score_at res a p n = None)"

text \<open>\<open>res'\<close> is \<open>res\<close> with \<open>D a p\<close> added to the entry of node \<open>u\<close> under every \<open>(a, p)\<close>.\<close>

definition adds :: "'n scores \<Rightarrow> 'n scores \<Rightarrow> 'n \<Rightarrow> (alpha \<Rightarrow> string \<Rightarrow> real) \<Rightarrow> bool" where
  "adds res res' u D \<longleftrightarrow>
     same_shape res res'
     \<and> (\<forall>a p n. score_at res' a p n
           = map_option (\<lambda>x. x + (if n = u then D a p else 0)) (score_at res a p n))"

text \<open>The value of the scorer for a shell and a profile (\<open>0\<close> stands in where it raises).\<close>

definition sim_of :: "('n, 'v) snapshot \<Rightarrow> 'v hierarchies \<Rightarrow> 'n \<Rightarrow> 'n list \<Rightarrow> string list \<Rightarrow> real" where
  "sim_of g hierarchies u nodes profile =
     (case label_frequency g u nodes profile hierarchies of Inl e \<Rightarrow> 0 | Inr s \<Rightarrow> s)"

text \<open>
  What the loops of lines 150 to 158 add to the entry of \<open>u\<close> under the key \<open>(a, p)\<close>: the
  loop over \<open>alphas\<close> adds \<open>sim / dst ** a\<close> once for each occurrence of \<open>a\<close>, the loop over
  the profiles once for each profile named \<open>p\<close>, the loop over the shells for each shell with
  \<open>dst \<noteq> 0\<close>.
\<close>

definition alpha_term :: "alpha list \<Rightarrow> real \<Rightarrow> nat \<Rightarrow> alpha \<Rightarrow> real" where
  "alpha_term alphas sim dst a = real (count_list alphas a) * (sim / py_pow dst (alpha_val a))"

definition profile_term :: "('n, 'v) snapshot \<Rightarrow> 'v hierarchies \<Rightarrow> 'n \<Rightarrow> alpha list
    \<Rightarrow> string list list \<Rightarrow> nat \<Rightarrow> 'n list \<Rightarrow> alpha \<Rightarrow> string \<Rightarrow> real" where
  "profile_term g hierarchies u alphas profiles dst nodes a p =
     sum_list (map (\<lambda>profile. if join ''_'' profile = p
                      then alpha_term alphas (sim_of g hierarchies u nodes profile) dst a else 0) profiles)"

definition shell_term :: "('n, 'v) snapshot \<Rightarrow> 'v hierarchies \<Rightarrow> 'n \<Rightarrow> alpha list
    \<Rightarrow> string list list \<Rightarrow> alpha \<Rightarrow> string \<Rightarrow> nat \<times> 'n list \<Rightarrow> real" where
  "shell_term g hierarchies u alphas profiles a p sh =
     (if fst sh \<noteq> 0 then profile_term g hierarchies u alphas profiles (fst sh) (snd sh) a p else 0)"

definition accumulated :: "('n, 'v) snapshot \<Rightarrow> 'v hierarchies \<Rightarrow> 'n \<Rightarrow> alpha list
    \<Rightarrow> string list list \<Rightarrow> (nat, 'n list) dict \<Rightarrow> alpha \<Rightarrow> string \<Rightarrow> real" where
  "accumulated g hierarchies u alphas profiles sp a p =
     sum_list (map (shell_term g hierarchies u alphas profiles a p) sp)"

text \<open>
  What one profile needs for the loops to pass: the scorer returns, and the entries that
  are updated exist.
\<close>

definition profile_ok :: "('n, 'v) snapshot \<Rightarrow> 'v hierarchies \<Rightarrow> 'n \<Rightarrow> alpha list \<Rightarrow> 'n list
    \<Rightarrow> 'n scores \<Rightarrow> string list \<Rightarrow> bool" where
  "profile_ok g hierarchies u alphas nodes res profile \<longleftrightarrow>
     (\<exists>s. label_frequency g u nodes profile hierarchies = Inr s)
     \<and> (\<forall>a\<in>set alphas. score_at res a (join ''_'' profile) u \<noteq> None)"

text \<open>A result whose inner dictionaries have no key twice, as Python's have.\<close>

definition wf_scores :: "'n scores \<Rightarrow> bool" where
  "wf_scores res \<longleftrightarrow> (\<forall>a ks. profile_keys res a = Some ks \<longrightarrow> distinct ks)"

text \<open>The same for all the profiles over every shell that is not skipped.\<close>

definition shells_ok :: "('n, 'v) snapshot \<Rightarrow> 'v hierarchies \<Rightarrow> 'n \<Rightarrow> alpha list
    \<Rightarrow> string list list \<Rightarrow> 'n scores \<Rightarrow> (nat, 'n list) dict \<Rightarrow> bool" where
  "shells_ok g hs u alphas profiles res sp \<longleftrightarrow>
     (\<forall>sh\<in>set sp. fst sh \<noteq> 0 \<longrightarrow> (\<forall>profile\<in>set profiles. profile_ok g hs u alphas (snd sh) res profile))"

subsection \<open>Concrete inputs\<close>

text \<open>
  A snapshot of four nodes with one label \<open>l\<close>: \<open>A\<close> and \<open>C\<close> carry \<open>x\<close>, \<open>B\<close> carries
  \<open>y\<close>, \<open>D\<close> carries \<open>z\<close>. \<open>A\<close> is adjacent to \<open>B\<close> and \<open>C\<close>; \<open>D\<close> has no neighbour.
\<close>

definition ex_g :: "(string, string) snapshot" where
  "ex_g = \<lparr> g_nodes = [''A'', ''B'', ''C'', ''D''],
            g_node = [(''A'', [(''l'', ''x'')]), (''B'', [(''l'', ''y'')]),
                      (''C'', [(''l'', ''x'')]), (''D'', [(''l'', ''z'')])],
            g_adj = [(''A'', [''B'', ''C'']), (''B'', [''A'']), (''C'', [''A'']), (''D'', [])] \<rparr>"

text \<open>A hierarchy of three consecutive ranks, and one whose two ranks are ten apart.\<close>

definition ex_ranks :: "string hierarchies" where
  "ex_ranks = Some [(''l'', [(''x'', 0), (''y'', 1), (''w'', 2)])]"

definition ex_wide :: "string hierarchies" where
  "ex_wide = Some [(''l'', [(''x'', 0), (''y'', 10)])]"

text \<open>
  A dynamic graph with the temporal ids \<open>1, 3, 5, 7\<close> whose every slice is \<open>ex_g\<close>, with one
  path between \<open>A\<close> and each of \<open>B\<close> and \<open>C\<close>, in both directions; and one whose slicing
  and path enumeration fail.
\<close>

definition ex_dg :: "(string, string) dyngraph" where
  "ex_dg = \<lparr> temporal_snapshots_ids = [1, 3, 5, 7],
             time_slice = (\<lambda>t_from t_to. Inr ex_g),
             path_lengths = (\<lambda>g t_from t_to path_type.
               Inr [((''A'', ''B''), 1), ((''A'', ''C''), 1), ((''B'', ''A''), 1), ((''C'', ''A''), 1)]) \<rparr>"

definition ex_dg_broken :: "(string, string) dyngraph" where
  "ex_dg_broken = \<lparr> temporal_snapshots_ids = [1, 3, 5, 7],
             time_slice = (\<lambda>t_from t_to. Inl (ExternalError ''time_slice'')),
             path_lengths = (\<lambda>g t_from t_to path_type. Inl (ExternalError ''paths'')) \<rparr>"

text \<open>The initial result of \<^verbatim>\<open>delta_conformity\<close> on \<open>ex_g\<close> for one label and \<open>alpha = 1\<close>.\<close>

definition ex_res0 :: "string scores" where
  "ex_res0 = init_res (g_nodes ex_g) [[''l'']] [IntAlpha 1]"

section \<open>Properties\<close>

subsection \<open>Errors and dictionaries\<close>

lemma bind_err_Inl: "bind_err (Inl e) f = Inl e"
  by (simp add: bind_err_def)

lemma bind_err_Inr: "bind_err (Inr x) f = f x"
  by (simp add: bind_err_def)

lemma bind_err_eq_Inr: "bind_err m f = Inr y \<longleftrightarrow> (\<exists>x. m = Inr x \<and> f x = Inr y)"
  by (cases m) (simp_all add: bind_err_def)

lemma dict_get_eq_Inr: "dict_get d k = Inr v \<longleftrightarrow> map_of d k = Some v"
  by (simp add: dict_get_def split: option.splits)

lemma dict_get_None: "map_of d k = None \<Longrightarrow> dict_get d k = Inl KeyError"
  by (simp add: dict_get_def)

text \<open>A dictionary that holds two different keys has at least two entries.\<close>

lemma dict_len_two:
  assumes "map_of h a = Some r1" and "map_of h b = Some r2" and "a \<noteq> b"
  shows "2 \<le> dict_len h"
proof -
  have "a \<in> set (map fst h)" and "b \<in> set (map fst h)"
    using assms(1,2) by (auto dest: map_of_SomeD intro: rev_image_eqI)
  then have "{a, b} \<subseteq> set (map fst h)" by simp
  then have "card {a, b} \<le> card (set (map fst h))"
    by (intro card_mono) simp_all
  then show ?thesis
    using assms(3) by (simp add: dict_len_def length_remdups_card_conv)
qed

lemmas ex_simps = ex_g_def ex_ranks_def ex_wide_def node_label_def neighbors_def
  dict_get_def dict_len_def bind_err_def

subsection \<open>The agreement indicator\<close>

text \<open>
  C10. When a hierarchy is given for the label and the value of the source or of the
  candidate has no rank in it, the indicator of a pair with different values fails with
  \<^verbatim>\<open>KeyError\<close>; the penalty \<open>-1\<close> is what a pair with different values gets when there
  is no hierarchy at all or none for this label.
\<close>

theorem indicator_missing_rank:
  assumes "node_label g v label = Inr a_v" and "a_u \<noteq> a_v"
  shows "(\<forall>hs h. hierarchies = Some hs \<and> map_of hs label = Some h
            \<and> (map_of h a_u = None \<or> map_of h a_v = None)
          \<longrightarrow> indicator g label a_u hierarchies v = Inl KeyError)
       \<and> (hierarchies = None \<or> (\<exists>hs. hierarchies = Some hs \<and> map_of hs label = None)
          \<longrightarrow> indicator g label a_u hierarchies v = Inr (- 1))"
  using assms
  by (auto simp: indicator_def distance_def bind_err_def dict_get_def split: option.splits)

text \<open>
  With the ranks \<open>x, y, w\<close> and the source value \<open>x\<close>, the candidate \<open>D\<close> of value \<open>z\<close>
  raises; without hierarchies it gets \<open>-1\<close>.
\<close>

theorem indicator_missing_rank_witness:
  "indicator ex_g ''l'' ''x'' ex_ranks ''D'' = Inl KeyError
   \<and> indicator ex_g ''l'' ''x'' None ''D'' = Inr (- 1)"
proof -
  have l: "node_label ex_g ''D'' ''l'' = Inr ''z''"
    by (simp add: ex_simps)
  have ne: "''x'' \<noteq> ''z''" by simp
  have r: "ex_ranks = Some [(''l'', [(''x'', 0), (''y'', 1), (''w'', 2)])]
      \<and> map_of [(''l'', [(''x'', 0), (''y'', 1), (''w'', 2)])] ''l'' = Some [(''x'', 0::real), (''y'', 1), (''w'', 2)]
      \<and> (map_of [(''x'', 0::real), (''y'', 1), (''w'', 2)] ''x'' = None
         \<or> map_of [(''x'', 0::real), (''y'', 1), (''w'', 2)] ''z'' = None)"
    by (simp add: ex_ranks_def)
  from indicator_missing_rank [OF l ne, of ex_ranks] r
  have "indicator ex_g ''l'' ''x'' ex_ranks ''D'' = Inl KeyError" by blast
  moreover from indicator_missing_rank [OF l ne, of None]
  have "indicator ex_g ''l'' ''x'' None ''D'' = Inr (- 1)" by blast
  ultimately show ?thesis by simp
qed

text \<open>
  C6, as the code has it. The indicator is \<open>1\<close> for equal values. For different values it is
  \<open>-1\<close> when no hierarchy covers the label, and \<open>-|r1 - r2| / (size - 1)\<close> when the
  hierarchy of the label ranks both values. That quotient is never positive; it is at least
  \<open>-1\<close> when the two ranks are at most \<open>size - 1\<close> apart, which the code does not check.
\<close>

theorem indicator_cases:
  assumes "node_label g v label = Inr a_v"
  shows "(a_u = a_v \<longrightarrow> indicator g label a_u hierarchies v = Inr 1)
     \<and> (a_u \<noteq> a_v \<longrightarrow> (hierarchies = None \<or> (\<exists>hs. hierarchies = Some hs \<and> map_of hs label = None))
          \<longrightarrow> indicator g label a_u hierarchies v = Inr (- 1))
     \<and> (\<forall>hs h r1 r2. a_u \<noteq> a_v \<and> hierarchies = Some hs \<and> map_of hs label = Some h
            \<and> map_of h a_u = Some r1 \<and> map_of h a_v = Some r2
          \<longrightarrow> indicator g label a_u hierarchies v = Inr (- \<bar>r1 - r2\<bar> / (real (dict_len h) - 1))
              \<and> - \<bar>r1 - r2\<bar> / (real (dict_len h) - 1) \<le> 0
              \<and> (\<bar>r1 - r2\<bar> \<le> real (dict_len h) - 1 \<longrightarrow> - 1 \<le> - \<bar>r1 - r2\<bar> / (real (dict_len h) - 1)))"
proof (intro conjI allI impI)
  assume "a_u = a_v"
  then show "indicator g label a_u hierarchies v = Inr 1"
    using assms by (simp add: indicator_def bind_err_def)
next
  assume "a_u \<noteq> a_v" and "hierarchies = None \<or> (\<exists>hs. hierarchies = Some hs \<and> map_of hs label = None)"
  then show "indicator g label a_u hierarchies v = Inr (- 1)"
    using assms by (auto simp: indicator_def distance_def bind_err_def)
next
  fix hs h r1 r2
  assume H: "a_u \<noteq> a_v \<and> hierarchies = Some hs \<and> map_of hs label = Some h
            \<and> map_of h a_u = Some r1 \<and> map_of h a_v = Some r2"
  then have len: "2 \<le> dict_len h" using dict_len_two by metis
  then have pos: "0 < real (dict_len h) - 1" by simp
  from len have eq: "real_of_int (int (dict_len h) - 1) = real (dict_len h) - 1" by simp
  from len have nz: "int (dict_len h) - 1 \<noteq> 0" by simp
  show "indicator g label a_u hierarchies v = Inr (- \<bar>r1 - r2\<bar> / (real (dict_len h) - 1))"
    using assms H nz eq by (simp add: indicator_def distance_def bind_err_def dict_get_def)
  show "- \<bar>r1 - r2\<bar> / (real (dict_len h) - 1) \<le> 0"
    using pos by (simp add: divide_nonpos_pos)
  assume "\<bar>r1 - r2\<bar> \<le> real (dict_len h) - 1"
  then show "- 1 \<le> - \<bar>r1 - r2\<bar> / (real (dict_len h) - 1)"
    using pos by (simp add: field_simps)
qed

text \<open>
  From the source value \<open>x\<close>: \<open>C\<close> agrees, \<open>B\<close> gets \<open>-1\<close> without hierarchies, and with
  the ranks \<open>0, 1, 2\<close> it gets \<open>-1/2\<close>.
\<close>

theorem indicator_cases_witness:
  "indicator ex_g ''l'' ''x'' ex_ranks ''C'' = Inr 1
   \<and> indicator ex_g ''l'' ''x'' None ''B'' = Inr (- 1)
   \<and> indicator ex_g ''l'' ''x'' ex_ranks ''B'' = Inr (- 1 / 2)
   \<and> - 1 \<le> (- 1 / 2 :: real) \<and> (- 1 / 2 :: real) \<le> 0"
proof -
  have lC: "node_label ex_g ''C'' ''l'' = Inr ''x''" and lB: "node_label ex_g ''B'' ''l'' = Inr ''y''"
    by (simp_all add: ex_simps)
  have ne: "''x'' \<noteq> ''y''" by simp
  let ?h = "[(''x'', 0::real), (''y'', 1), (''w'', 2)]"
  have r: "''x'' \<noteq> ''y'' \<and> ex_ranks = Some [(''l'', ?h)] \<and> map_of [(''l'', ?h)] ''l'' = Some ?h
      \<and> map_of ?h ''x'' = Some 0 \<and> map_of ?h ''y'' = Some 1"
    by (simp add: ex_ranks_def)
  have len: "real (dict_len ?h) - 1 = 2"
    by (simp add: dict_len_def)
  from indicator_cases [OF lC, of "''x''" ex_ranks]
  have "indicator ex_g ''l'' ''x'' ex_ranks ''C'' = Inr 1" by blast
  moreover from indicator_cases [OF lB, of "''x''" None] ne
  have "indicator ex_g ''l'' ''x'' None ''B'' = Inr (- 1)" by blast
  moreover from indicator_cases [OF lB, of "''x''" ex_ranks] r
  have "indicator ex_g ''l'' ''x'' ex_ranks ''B'' = Inr (- \<bar>0 - 1\<bar> / (real (dict_len ?h) - 1))"
    by blast
  ultimately show ?thesis using len by simp
qed

text \<open>
  C6 as the specification words it promises a value in \<open>[-1, 0]\<close> whenever a hierarchy
  exists for the label. With the ranks \<open>0\<close> and \<open>10\<close> the indicator of \<open>B\<close> is \<open>-10\<close>.
\<close>

theorem indicator_range_counterexample:
  "indicator ex_g ''l'' ''x'' ex_wide ''B'' = Inr (- 10) \<and> (- 10 :: real) < - 1"
  by (simp add: indicator_def distance_def ex_simps)

subsection \<open>The homogeneity weight\<close>

lemma count_same_length:
  assumes "node_label g v label = Inr a" and "\<forall>x\<in>set ns. \<exists>b. node_label g x label = Inr b"
  shows "count_same g label v ns = Inr (length (filter (\<lambda>x. node_label g x label = Inr a) ns))"
  using assms by (induction ns) (auto simp: bind_err_def)

text \<open>
  C8. For a candidate \<open>v\<close> that has neighbours, all labelled, the weight is the share of the
  neighbours of \<open>v\<close> in the snapshot that carry the value of \<open>v\<close>, and \<open>1\<close> when that share
  is \<open>0\<close>. The neighbours are those of the snapshot; no distance from the source enters.
\<close>

theorem f_label_share:
  assumes "neighbors g v = Inr ns" and "ns \<noteq> []"
    and "node_label g v label = Inr a"
    and "\<forall>x\<in>set ns. \<exists>b. node_label g x label = Inr b"
  shows "f_label g label v =
     Inr (if homogeneous_share g label v = 0 then 1 else homogeneous_share g label v)"
proof -
  have ns: "dict_get_default [] (g_adj g) v = ns"
    using assms(1) by (simp add: neighbors_def dict_get_default_def split: option.splits)
  have c: "count_same g label v ns = Inr (length (filter (\<lambda>x. node_label g x label = Inr a) ns))"
    using count_same_length [OF assms(3,4)] .
  have sh: "homogeneous_share g label v
      = real (length (filter (\<lambda>x. node_label g x label = Inr a) ns)) / real (length ns)"
    by (simp add: homogeneous_share_def ns assms(3))
  have "0 \<le> homogeneous_share g label v"
    by (simp add: sh)
  then have "(if homogeneous_share g label v > 0 then homogeneous_share g label v else 1)
      = (if homogeneous_share g label v = 0 then 1 else homogeneous_share g label v)"
    by auto
  then show ?thesis
    using assms(1,2) c sh by (simp add: f_label_def bind_err_def Let_def)
qed

text \<open>
  \<open>A\<close> has the neighbours \<open>B\<close> and \<open>C\<close>, of which \<open>C\<close> shares its value: weight \<open>1/2\<close>.
  The only neighbour of \<open>B\<close> has another value: share \<open>0\<close>, weight \<open>1\<close>.
\<close>

theorem f_label_share_witness:
  "f_label ex_g ''l'' ''A'' = Inr (1 / 2) \<and> f_label ex_g ''l'' ''B'' = Inr 1"
proof -
  have nA: "neighbors ex_g ''A'' = Inr [''B'', ''C'']" and nB: "neighbors ex_g ''B'' = Inr [''A'']"
    by (simp_all add: ex_simps)
  have lA: "node_label ex_g ''A'' ''l'' = Inr ''x''" and lB: "node_label ex_g ''B'' ''l'' = Inr ''y''"
    by (simp_all add: ex_simps)
  have aA: "\<forall>x\<in>set [''B'', ''C'']. \<exists>b. node_label ex_g x ''l'' = Inr b"
    and aB: "\<forall>x\<in>set [''A'']. \<exists>b. node_label ex_g x ''l'' = Inr b"
    by (simp_all add: ex_simps)
  have sA: "homogeneous_share ex_g ''l'' ''A'' = 1 / 2" and sB: "homogeneous_share ex_g ''l'' ''B'' = 0"
    by (simp_all add: homogeneous_share_def dict_get_default_def ex_simps)
  have "f_label ex_g ''l'' ''A'' = Inr (1 / 2)"
    using f_label_share [OF nA _ lA aA] sA by simp
  moreover have "f_label ex_g ''l'' ''B'' = Inr 1"
    using f_label_share [OF nB _ lB aB] sB by simp
  ultimately show ?thesis by simp
qed

subsection \<open>A candidate without neighbours\<close>

lemma f_label_no_neighbour: "neighbors g v = Inr [] \<Longrightarrow> f_label g label v = Inl ZeroDivisionError"
  by (simp add: f_label_def bind_err_def)

lemma sgn_entry_no_neighbour:
  "neighbors g v = Inr [] \<Longrightarrow> \<exists>e. sgn_entry g label a_u hierarchies v = Inl e"
  by (cases "indicator g label a_u hierarchies v")
     (simp_all add: sgn_entry_def bind_err_def f_label_no_neighbour)

lemma sgn_loop_fails:
  "v \<in> set vs \<Longrightarrow> sgn_entry g label a_u hierarchies v = Inl e
    \<Longrightarrow> \<exists>e'. sgn_loop g label a_u hierarchies vs sg = Inl e'"
proof (induction vs arbitrary: sg)
  case Nil
  then show ?case by simp
next
  case (Cons x xs)
  show ?case
  proof (cases "sgn_entry g label a_u hierarchies x")
    case (Inl e1)
    then show ?thesis by (simp add: bind_err_def)
  next
    case (Inr y)
    with Cons.prems have "v \<in> set xs" by auto
    from Cons.IH [OF this Cons.prems(2)] Inr show ?thesis by (simp add: bind_err_def)
  qed
qed

text \<open>
  C2, as the code has it. The division by \<^verbatim>\<open>len(v_neigh)\<close> is not guarded: for a candidate
  without neighbours the weight raises \<^verbatim>\<open>ZeroDivisionError\<close>, and a similarity computation
  over a shell that holds such a candidate returns no value. The weight \<open>1\<close> replaces a share
  of \<open>0\<close> of a node that has neighbours.
\<close>

theorem zero_degree_not_guarded:
  "(neighbors g v = Inr [] \<longrightarrow> f_label g label v = Inl ZeroDivisionError)
   \<and> (neighbors g v = Inr [] \<and> v \<in> set nodes
        \<longrightarrow> (\<exists>e. label_frequency g u nodes (label # labels) hierarchies = Inl e))
   \<and> (\<forall>ns. neighbors g v = Inr ns \<and> ns \<noteq> [] \<and> count_same g label v ns = Inr 0
        \<longrightarrow> f_label g label v = Inr 1)"
proof (intro conjI impI allI)
  assume "neighbors g v = Inr []"
  then show "f_label g label v = Inl ZeroDivisionError" by (rule f_label_no_neighbour)
next
  assume H: "neighbors g v = Inr [] \<and> v \<in> set nodes"
  show "\<exists>e. label_frequency g u nodes (label # labels) hierarchies = Inl e"
  proof (cases "node_label g u label")
    case (Inl e)
    then show ?thesis by (simp add: label_frequency_def bind_err_def)
  next
    case (Inr a_u)
    from H sgn_entry_no_neighbour obtain e where "sgn_entry g label a_u hierarchies v = Inl e"
      by metis
    with H sgn_loop_fails obtain e' where "sgn_loop g label a_u hierarchies nodes [] = Inl e'"
      by metis
    with Inr show ?thesis by (simp add: label_frequency_def bind_err_def)
  qed
next
  fix ns
  assume "neighbors g v = Inr ns \<and> ns \<noteq> [] \<and> count_same g label v ns = Inr 0"
  then show "f_label g label v = Inr 1"
    by (simp add: f_label_def bind_err_def)
qed

theorem zero_degree_not_guarded_witness:
  "f_label ex_g ''l'' ''D'' = Inl ZeroDivisionError
   \<and> (\<exists>e. label_frequency ex_g ''A'' [''C'', ''D''] [''l''] None = Inl e)
   \<and> f_label ex_g ''l'' ''B'' = Inr 1"
proof -
  have nD: "neighbors ex_g ''D'' = Inr []" by (simp add: ex_simps)
  have nB: "neighbors ex_g ''B'' = Inr [''A''] \<and> [''A''] \<noteq> [] \<and> count_same ex_g ''l'' ''B'' [''A''] = Inr 0"
    by (simp add: ex_simps)
  have m: "''D'' \<in> set [''C'', ''D'']" by simp
  from zero_degree_not_guarded [of ex_g "''D''" "''l''"] nD
  have "f_label ex_g ''l'' ''D'' = Inl ZeroDivisionError" by blast
  moreover from zero_degree_not_guarded [of ex_g "''D''" "''l''" "[''C'', ''D'']" "''A''" "[]" None] nD m
  have "\<exists>e. label_frequency ex_g ''A'' [''C'', ''D''] [''l''] None = Inl e" by blast
  moreover from zero_degree_not_guarded [of ex_g "''B''" "''l''"] nB
  have "f_label ex_g ''l'' ''B'' = Inr 1" by blast
  ultimately show ?thesis by simp
qed

text \<open>
  C2 as the specification words it: the weight of a candidate without neighbours would be
  \<open>1\<close> and no error would leave the similarity computation. \<open>D\<close> has no neighbour; its
  weight and the similarity of the shell \<open>[D]\<close> seen from \<open>A\<close> both raise.
\<close>

theorem zero_degree_counterexample:
  "neighbors ex_g ''D'' = Inr []
   \<and> f_label ex_g ''l'' ''D'' = Inl ZeroDivisionError
   \<and> label_frequency ex_g ''A'' [''D''] [''l''] None = Inl ZeroDivisionError"
  by (simp add: label_frequency_def sgn_entry_def indicator_def distance_def f_label_def ex_simps)

subsection \<open>The similarity of a shell that agrees with the source\<close>

lemma update_fresh: "k \<notin> fst ` set al \<Longrightarrow> AList.update k v al = al @ [(k, v)]"
  by (induction al) auto

lemma sgn_loop_distinct:
  assumes "\<forall>v\<in>set vs. sgn_entry g label a_u hierarchies v = Inr (w v)"
    and "distinct vs" and "set vs \<inter> fst ` set sg = {}"
  shows "sgn_loop g label a_u hierarchies vs sg = Inr (sg @ map (\<lambda>v. (v, w v)) vs)"
  using assms
proof (induction vs arbitrary: sg)
  case Nil
  then show ?case by simp
next
  case (Cons x xs)
  have fresh: "x \<notin> fst ` set sg" using Cons.prems(3) by auto
  have "set xs \<inter> fst ` set (sg @ [(x, w x)]) = {}"
    using Cons.prems(2,3) by auto
  with Cons.IH [of "sg @ [(x, w x)]"] Cons.prems(1,2)
  have "sgn_loop g label a_u hierarchies xs (sg @ [(x, w x)])
      = Inr ((sg @ [(x, w x)]) @ map (\<lambda>v. (v, w v)) xs)"
    by simp
  then show ?case
    using Cons.prems(1) fresh by (simp add: bind_err_def update_fresh)
qed

text \<open>
  C7. A profile of one label, a shell of distinct candidates that all carry the value of the
  source: the similarity is the arithmetic mean of the candidates' homogeneity weights \<open>w\<close>.
  No hierarchy is consulted, so the statement holds for every \<open>hierarchies\<close>, among them
  \<open>None\<close>.
\<close>

theorem label_frequency_exact_match:
  assumes "distinct nodes" and "nodes \<noteq> []"
    and "node_label g u label = Inr a"
    and "\<forall>v\<in>set nodes. node_label g v label = Inr a"
    and "\<forall>v\<in>set nodes. f_label g label v = Inr (w v)"
  shows "label_frequency g u nodes [label] hierarchies
      = Inr (sum_list (map w nodes) / real (length nodes))"
proof -
  have "\<forall>v\<in>set nodes. sgn_entry g label a hierarchies v = Inr (w v)"
    using assms(4,5) by (simp add: sgn_entry_def indicator_def bind_err_def)
  then have "sgn_loop g label a hierarchies nodes [] = Inr (map (\<lambda>v. (v, w v)) nodes)"
    using sgn_loop_distinct [of nodes g label a hierarchies w "[]"] assms(1) by simp
  moreover have "sum_list (map snd (map (\<lambda>v. (v, w v)) nodes)) = sum_list (map w nodes)"
    by (simp add: comp_def)
  ultimately show ?thesis
    using assms(2,3) by (simp add: label_frequency_def bind_err_def del: map_map)
qed

text \<open>
  Seen from \<open>C\<close>, the shell \<open>[A, C]\<close> carries the value \<open>x\<close> of \<open>C\<close>; the weights are \<open>1/2\<close>
  and \<open>1\<close>, the similarity is \<open>3/4\<close>.
\<close>

theorem label_frequency_exact_match_witness:
  "label_frequency ex_g ''C'' [''A'', ''C''] [''l''] None = Inr (3 / 4)"
proof -
  let ?w = "\<lambda>v. if v = ''A'' then 1 / 2 else (1::real)"
  have d: "distinct [''A'', ''C'']" and n: "[''A'', ''C''] \<noteq> []" by simp_all
  have lu: "node_label ex_g ''C'' ''l'' = Inr ''x''" by (simp add: ex_simps)
  have lv: "\<forall>v\<in>set [''A'', ''C'']. node_label ex_g v ''l'' = Inr ''x''" by (simp add: ex_simps)
  have fv: "\<forall>v\<in>set [''A'', ''C'']. f_label ex_g ''l'' v = Inr (?w v)"
    by (simp add: f_label_def ex_simps)
  from label_frequency_exact_match [OF d n lu lv fv, of None]
  show ?thesis by simp
qed

subsection \<open>The argument checks of \<^verbatim>\<open>delta_conformity\<close>\<close>

text \<open>
  C3. When \<open>profile_size\<close> exceeds the number of labels, or \<open>alphas\<close> is empty, or
  \<open>labels\<close> is empty, the call ends in a \<^verbatim>\<open>ValueError\<close> that is fixed by the arguments
  alone: it is the same for every dynamic graph, so neither the slice nor the paths are
  computed first.
\<close>

theorem delta_conformity_invalid_argument:
  assumes "profile_size > int (length labels) \<or> alphas = [] \<or> labels = []"
  shows "\<exists>msg. \<forall>dg. delta_conformity dg start delta alphas labels profile_size hierarchies path_type
           = Inl (ValueError msg)"
proof (cases "profile_size > int (length labels)")
  case True
  then show ?thesis by (simp add: delta_conformity_def)
next
  case False
  with assms have "length alphas < 1 \<or> length labels < 1" by auto
  with False show ?thesis by (simp add: delta_conformity_def)
qed

text \<open>
  The graph whose \<^verbatim>\<open>time_slice\<close> fails still answers with the \<^verbatim>\<open>ValueError\<close> of the
  first check.
\<close>

theorem delta_conformity_invalid_argument_witness:
  "delta_conformity ex_dg_broken 1 5 [IntAlpha 1] [''l''] 2 None ''shortest''
     = Inl (ValueError ''profile_size must be <= len(labels)'')
   \<and> (\<exists>msg. delta_conformity ex_dg 1 5 [] [''l''] 1 None ''shortest'' = Inl (ValueError msg))
   \<and> (\<exists>msg. delta_conformity ex_dg 1 5 [IntAlpha 1] [] 0 None ''shortest'' = Inl (ValueError msg))"
proof -
  have h1: "2 > int (length [''l'']) \<or> [IntAlpha 1] = [] \<or> [''l''] = []" by simp
  have h2: "1 > int (length [''l'']) \<or> ([]::alpha list) = [] \<or> [''l''] = []" by simp
  have h3: "0 > int (length ([]::string list)) \<or> [IntAlpha 1] = [] \<or> ([]::string list) = []" by simp
  from delta_conformity_invalid_argument [OF h1, of 1 5 None "''shortest''"]
  obtain msg where m: "\<forall>dg::(string, string) dyngraph.
      delta_conformity dg 1 5 [IntAlpha 1] [''l''] 2 None ''shortest'' = Inl (ValueError msg)"
    by blast
  have "delta_conformity ex_dg_broken 1 5 [IntAlpha 1] [''l''] 2 None ''shortest''
     = Inl (ValueError ''profile_size must be <= len(labels)'')"
    by (simp add: delta_conformity_def)
  moreover from delta_conformity_invalid_argument [OF h2, of 1 5 None "''shortest''"]
  have "\<exists>msg. delta_conformity ex_dg 1 5 [] [''l''] 1 None ''shortest'' = Inl (ValueError msg)"
    by blast
  moreover from delta_conformity_invalid_argument [OF h3, of 1 5 None "''shortest''"]
  have "\<exists>msg. delta_conformity ex_dg 1 5 [IntAlpha 1] [] 0 None ''shortest'' = Inl (ValueError msg)"
    by blast
  ultimately show ?thesis by simp
qed

subsection \<open>The windows of \<^verbatim>\<open>sliding_delta_conformity\<close>\<close>

text \<open>
  C1, as the code has it. Over the temporal ids \<open>1, 3, 5, 7\<close> and with \<open>delta = 5\<close> the
  test \<^verbatim>\<open>t + delta < tids[-1]\<close> holds for \<open>t = 1\<close> only (\<open>6 < 7\<close>): the result is that of
  the one window \<open>[1, 6]\<close>, each score stamped \<open>6\<close>. From \<open>delta = 6\<close> on no window is
  computed and the result is empty.
\<close>

theorem sliding_window_starts:
  assumes "temporal_snapshots_ids dg = [1, 3, 5, 7]"
  shows "sliding_delta_conformity dg 5 alphas labels profile_size hierarchies path_type
           = bind_err (delta_conformity dg 1 5 alphas labels profile_size hierarchies path_type)
               (\<lambda>dconf. Inr (append_window 6 dconf []))
       \<and> (6 \<le> delta \<longrightarrow>
            sliding_delta_conformity dg delta alphas labels profile_size hierarchies path_type = Inr [])"
  using assms by (simp add: sliding_delta_conformity_def bind_err_def split: sum.splits)

theorem sliding_window_starts_witness:
  "sliding_delta_conformity ex_dg 5 [IntAlpha 1] [''l''] 1 None ''shortest''
     = bind_err (delta_conformity ex_dg 1 5 [IntAlpha 1] [''l''] 1 None ''shortest'')
               (\<lambda>dconf. Inr (append_window 6 dconf []))
   \<and> sliding_delta_conformity ex_dg 6 [IntAlpha 1] [''l''] 1 None ''shortest'' = Inr []"
proof -
  have t: "temporal_snapshots_ids ex_dg = [1, 3, 5, 7]" by (simp add: ex_dg_def)
  from sliding_window_starts [OF t, of "[IntAlpha 1]" "[''l'']" 1 None "''shortest''" 6]
  show ?thesis by simp
qed

lemma ex_delta: "delta_conformity ex_dg 1 5 [IntAlpha 1] [''l''] 1 None ''shortest''
   = Inr [(IntAlpha 1, [(''l'', [(''A'', 0), (''B'', - (1 / 2)), (''C'', 1 / 2), (''D'', 0)])])]"
  by (simp add: delta_conformity_def ex_dg_def make_profiles_def upto.simps init_res_def dict_comp_def
      make_distances_def dict_get_default_def node_step_def shells_of_def label_frequency_def
      sgn_entry_def indicator_def distance_def f_label_def modify_entry_def py_pow_def py_div_def norm_of_def
      ex_simps)

text \<open>
  C1 as the specification words it: with \<open>delta = 5\<close> no window would be processed and
  every sequence would be empty. On \<open>ex_dg\<close> every node gets one entry.
\<close>

theorem sliding_nonempty_counterexample:
  "temporal_snapshots_ids ex_dg = [1, 3, 5, 7]
   \<and> sliding_delta_conformity ex_dg 5 [IntAlpha 1] [''l''] 1 None ''shortest''
     = Inr [(IntAlpha 1, [(''l'', [(''A'', [(6, 0)]), (''B'', [(6, - (1 / 2))]),
                                   (''C'', [(6, 1 / 2)]), (''D'', [(6, 0)])])])]"
proof -
  have t: "temporal_snapshots_ids ex_dg = [1, 3, 5, 7]" by (simp add: ex_dg_def)
  have "sliding_delta_conformity ex_dg 5 [IntAlpha 1] [''l''] 1 None ''shortest''
     = bind_err (delta_conformity ex_dg 1 5 [IntAlpha 1] [''l''] 1 None ''shortest'')
               (\<lambda>dconf. Inr (append_window 6 dconf []))"
    by (simp add: sliding_delta_conformity_def t bind_err_def split: sum.splits)
  also have "\<dots> = Inr [(IntAlpha 1, [(''l'', [(''A'', [(6, 0)]), (''B'', [(6, - (1 / 2))]),
                                   (''C'', [(6, 1 / 2)]), (''D'', [(6, 0)])])])]"
    by (simp add: ex_delta bind_err_def append_window_def series_append_def dict_get_default_def)
  finally show ?thesis using t by simp
qed

subsection \<open>The accumulator\<close>

lemma same_shape_refl: "same_shape res res"
  by (simp add: same_shape_def)

lemma same_shape_trans: "same_shape r0 r1 \<Longrightarrow> same_shape r1 r2 \<Longrightarrow> same_shape r0 r2"
  by (simp add: same_shape_def)

lemma adds_refl: "adds res res u (\<lambda>a p. 0)"
  by (simp add: adds_def same_shape_refl option.map_ident)

lemma adds_trans:
  assumes "adds r0 r1 u D1" and "adds r1 r2 u D2"
  shows "adds r0 r2 u (\<lambda>a p. D1 a p + D2 a p)"
proof -
  have "same_shape r0 r2"
    using assms same_shape_trans by (auto simp: adds_def)
  moreover have "score_at r2 a p n
      = map_option (\<lambda>x. x + (if n = u then D1 a p + D2 a p else 0)) (score_at r0 a p n)" for a p n
    using assms by (cases "score_at r0 a p n") (simp_all add: adds_def)
  ultimately show ?thesis by (simp add: adds_def)
qed

lemma adds_eq: "adds r0 r1 u D \<Longrightarrow> (\<And>a p. D a p = D' a p) \<Longrightarrow> adds r0 r1 u D'"
  by (simp add: adds_def)

lemma modify_entry_Inr:
  assumes "modify_entry f a p u res = Inr res'"
  shows "\<exists>x y. score_at res a p u = Some x \<and> f x = Inr y
      \<and> (\<forall>a' p' n. score_at res' a' p' n
             = (if a' = a \<and> p' = p \<and> n = u then Some y else score_at res a' p' n))
      \<and> (\<forall>a'. profile_keys res' a' = profile_keys res a')"
proof -
  from assms obtain pm nm x y where
    pm: "map_of res a = Some pm" and nm: "map_of pm p = Some nm" and x: "map_of nm u = Some x"
    and y: "f x = Inr y"
    and r: "res' = AList.update a (AList.update p (AList.update u y nm) pm) res"
    by (auto simp: modify_entry_def bind_err_eq_Inr dict_get_eq_Inr)
  have "score_at res a p u = Some x"
    by (simp add: score_at_def pm nm x)
  moreover have "score_at res' a' p' n
             = (if a' = a \<and> p' = p \<and> n = u then Some y else score_at res a' p' n)" for a' p' n
    by (simp add: score_at_def r update_conv' pm nm x)
  moreover have "p \<in> fst ` set pm"
    using nm by (auto dest: map_of_SomeD intro: rev_image_eqI)
  then have "profile_keys res' a' = profile_keys res a'" for a'
    by (simp add: profile_keys_def r update_conv' pm update_keys)
  ultimately show ?thesis using y by blast
qed

lemma modify_entry_succ:
  assumes "score_at res a p u = Some x" and "f x = Inr y"
  shows "\<exists>res'. modify_entry f a p u res = Inr res'"
  using assms
  by (auto simp: modify_entry_def score_at_def bind_err_def dict_get_def split: option.splits)

lemma modify_entry_adds:
  assumes "modify_entry (\<lambda>x. Inr (x + t)) a p u res = Inr res'"
  shows "adds res res' u (\<lambda>a' p'. if a' = a \<and> p' = p then t else 0)"
    and "score_at res a p u \<noteq> None"
proof -
  from modify_entry_Inr [OF assms] obtain x where
    x: "score_at res a p u = Some x"
    and s: "\<And>a' p' n. score_at res' a' p' n
             = (if a' = a \<and> p' = p \<and> n = u then Some (x + t) else score_at res a' p' n)"
    and k: "\<And>a'. profile_keys res' a' = profile_keys res a'"
    by auto
  show "score_at res a p u \<noteq> None" using x by simp
  have "same_shape res res'"
    using x by (simp add: same_shape_def k s)
  moreover have "score_at res' a' p' n
      = map_option (\<lambda>x. x + (if n = u then (if a' = a \<and> p' = p then t else 0) else 0))
          (score_at res a' p' n)" for a' p' n
    using x by (cases "score_at res a' p' n") (auto simp: s)
  ultimately show "adds res res' u (\<lambda>a' p'. if a' = a \<and> p' = p then t else 0)"
    by (simp add: adds_def)
qed

lemma adds_present: "adds res res' u D \<Longrightarrow> score_at res' a p n = None \<longleftrightarrow> score_at res a p n = None"
  by (simp add: adds_def same_shape_def)

lemma alpha_loop_adds:
  assumes "alpha_loop u p sim dst alphas res = Inr res'"
  shows "adds res res' u (\<lambda>a' p'. if p' = p then alpha_term alphas sim dst a' else 0)
       \<and> (\<forall>a\<in>set alphas. score_at res a p u \<noteq> None)"
  using assms
proof (induction alphas arbitrary: res)
  case Nil
  then have "res' = res" by simp
  moreover have "adds res res u (\<lambda>a' p'. if p' = p then alpha_term [] sim dst a' else 0)"
    by (rule adds_eq [OF adds_refl]) (simp add: alpha_term_def)
  ultimately show ?case by simp
next
  case (Cons a as)
  from Cons.prems obtain r1 where
    m: "modify_entry (\<lambda>x. Inr (x + sim / py_pow dst (alpha_val a))) a p u res = Inr r1"
    and l: "alpha_loop u p sim dst as r1 = Inr res'"
    by (auto simp: bind_err_eq_Inr)
  note a1 = modify_entry_adds [OF m]
  from Cons.IH [OF l] have a2: "adds r1 res' u (\<lambda>a' p'. if p' = p then alpha_term as sim dst a' else 0)"
    and pr: "\<forall>a\<in>set as. score_at r1 a p u \<noteq> None" by auto
  have "adds res res' u (\<lambda>a' p'. if p' = p then alpha_term (a # as) sim dst a' else 0)"
    by (rule adds_eq [OF adds_trans [OF a1(1) a2]]) (simp add: alpha_term_def algebra_simps add_divide_distrib)
  moreover have "\<forall>b\<in>set (a # as). score_at res b p u \<noteq> None"
    using a1(2) pr adds_present [OF a1(1)] by auto
  ultimately show ?case by simp
qed

lemma alpha_loop_succ:
  assumes "\<forall>a\<in>set alphas. score_at res a p u \<noteq> None"
  shows "\<exists>res'. alpha_loop u p sim dst alphas res = Inr res'"
  using assms
proof (induction alphas arbitrary: res)
  case Nil
  then show ?case by simp
next
  case (Cons a as)
  then obtain x where "score_at res a p u = Some x" by auto
  from modify_entry_succ [OF this, of "\<lambda>x. Inr (x + sim / py_pow dst (alpha_val a))"]
  obtain r1 where m: "modify_entry (\<lambda>x. Inr (x + sim / py_pow dst (alpha_val a))) a p u res = Inr r1"
    by auto
  have "\<forall>b\<in>set as. score_at r1 b p u \<noteq> None"
    using Cons.prems adds_present [OF modify_entry_adds(1) [OF m]] by simp
  from Cons.IH [OF this] m show ?case by (simp add: bind_err_def)
qed

lemma profile_ok_shape:
  "same_shape res res' \<Longrightarrow> profile_ok g hs u alphas nodes res' profile = profile_ok g hs u alphas nodes res profile"
  by (simp add: profile_ok_def same_shape_def)

lemma profile_loop_adds:
  assumes "profile_loop g hs u alphas dst nodes profiles res = Inr res'"
  shows "adds res res' u (profile_term g hs u alphas profiles dst nodes)
       \<and> (\<forall>profile\<in>set profiles. profile_ok g hs u alphas nodes res profile)"
  using assms
proof (induction profiles arbitrary: res)
  case Nil
  then have "res' = res" by simp
  moreover have "adds res res u (profile_term g hs u alphas [] dst nodes)"
    by (rule adds_eq [OF adds_refl]) (simp add: profile_term_def)
  ultimately show ?case by simp
next
  case (Cons pr ps)
  from Cons.prems obtain sim r1 where
    s: "label_frequency g u nodes pr hs = Inr sim"
    and al: "alpha_loop u (join ''_'' pr) sim dst alphas res = Inr r1"
    and l: "profile_loop g hs u alphas dst nodes ps r1 = Inr res'"
    by (auto simp: bind_err_eq_Inr)
  from alpha_loop_adds [OF al]
  have a1: "adds res r1 u (\<lambda>a' p'. if p' = join ''_'' pr then alpha_term alphas sim dst a' else 0)"
    and p1: "\<forall>a\<in>set alphas. score_at res a (join ''_'' pr) u \<noteq> None" by auto
  from Cons.IH [OF l] have a2: "adds r1 res' u (profile_term g hs u alphas ps dst nodes)"
    and p2: "\<forall>profile\<in>set ps. profile_ok g hs u alphas nodes r1 profile" by auto
  have sh: "same_shape res r1" using a1 by (simp add: adds_def)
  have "adds res res' u (profile_term g hs u alphas (pr # ps) dst nodes)"
    by (rule adds_eq [OF adds_trans [OF a1 a2]]) (auto simp: profile_term_def sim_of_def s)
  moreover have "\<forall>profile\<in>set (pr # ps). profile_ok g hs u alphas nodes res profile"
    using p1 p2 s profile_ok_shape [OF sh, of g hs u alphas nodes] by (simp add: profile_ok_def)
  ultimately show ?case by simp
qed

lemma profile_loop_succ:
  assumes "\<forall>profile\<in>set profiles. profile_ok g hs u alphas nodes res profile"
  shows "\<exists>res'. profile_loop g hs u alphas dst nodes profiles res = Inr res'"
  using assms
proof (induction profiles arbitrary: res)
  case Nil
  then show ?case by simp
next
  case (Cons pr ps)
  then obtain sim where s: "label_frequency g u nodes pr hs = Inr sim"
    and p1: "\<forall>a\<in>set alphas. score_at res a (join ''_'' pr) u \<noteq> None"
    by (auto simp: profile_ok_def)
  from alpha_loop_succ [OF p1] obtain r1 where
    al: "alpha_loop u (join ''_'' pr) sim dst alphas res = Inr r1" by blast
  have sh: "same_shape res r1" using alpha_loop_adds [OF al] by (simp add: adds_def)
  have "\<forall>profile\<in>set ps. profile_ok g hs u alphas nodes r1 profile"
    using Cons.prems profile_ok_shape [OF sh, of g hs u alphas nodes] by simp
  from Cons.IH [OF this] s al show ?case by (simp add: bind_err_def)
qed

lemma shells_ok_shape:
  "same_shape res res' \<Longrightarrow> shells_ok g hs u alphas profiles res' sp = shells_ok g hs u alphas profiles res sp"
  by (simp add: shells_ok_def profile_ok_shape)

lemma shell_loop_adds:
  assumes "shell_loop g hs u alphas profiles sp res = Inr res'"
  shows "adds res res' u (accumulated g hs u alphas profiles sp)
       \<and> shells_ok g hs u alphas profiles res sp"
  using assms
proof (induction sp arbitrary: res)
  case Nil
  then have "res' = res" by simp
  moreover have "adds res res u (accumulated g hs u alphas profiles [])"
    by (rule adds_eq [OF adds_refl]) (simp add: accumulated_def)
  ultimately show ?case by (simp add: shells_ok_def)
next
  case (Cons sh sp)
  obtain dst nodes where sh: "sh = (dst, nodes)" by (cases sh)
  show ?case
  proof (cases "dst = 0")
    case True
    with Cons.prems sh have l: "shell_loop g hs u alphas profiles sp res = Inr res'" by simp
    from Cons.IH [OF l] have a: "adds res res' u (accumulated g hs u alphas profiles sp)"
      and ok: "shells_ok g hs u alphas profiles res sp" by auto
    have "adds res res' u (accumulated g hs u alphas profiles (sh # sp))"
      by (rule adds_eq [OF a]) (simp add: accumulated_def shell_term_def sh True)
    moreover have "shells_ok g hs u alphas profiles res (sh # sp)"
      using ok by (simp add: shells_ok_def sh True)
    ultimately show ?thesis by simp
  next
    case False
    with Cons.prems sh obtain r1 where
      pl: "profile_loop g hs u alphas dst nodes profiles res = Inr r1"
      and l: "shell_loop g hs u alphas profiles sp r1 = Inr res'"
      by (auto simp: bind_err_eq_Inr)
    from profile_loop_adds [OF pl]
    have a1: "adds res r1 u (profile_term g hs u alphas profiles dst nodes)"
      and p1: "\<forall>profile\<in>set profiles. profile_ok g hs u alphas nodes res profile" by auto
    from Cons.IH [OF l] have a2: "adds r1 res' u (accumulated g hs u alphas profiles sp)"
      and ok: "shells_ok g hs u alphas profiles r1 sp" by auto
    have shp: "same_shape res r1" using a1 by (simp add: adds_def)
    have "adds res res' u (accumulated g hs u alphas profiles (sh # sp))"
      by (rule adds_eq [OF adds_trans [OF a1 a2]]) (simp add: accumulated_def shell_term_def sh False)
    moreover have "shells_ok g hs u alphas profiles res (sh # sp)"
      using ok p1 shells_ok_shape [OF shp, of g hs u alphas profiles sp] by (simp add: shells_ok_def sh)
    ultimately show ?thesis by simp
  qed
qed

lemma shell_loop_succ:
  assumes "shells_ok g hs u alphas profiles res sp"
  shows "\<exists>res'. shell_loop g hs u alphas profiles sp res = Inr res'"
  using assms
proof (induction sp arbitrary: res)
  case Nil
  then show ?case by simp
next
  case (Cons sh sp)
  obtain dst nodes where sh: "sh = (dst, nodes)" by (cases sh)
  show ?case
  proof (cases "dst = 0")
    case True
    from Cons.prems have "shells_ok g hs u alphas profiles res sp" by (simp add: shells_ok_def)
    from Cons.IH [OF this] show ?thesis by (simp add: sh True)
  next
    case False
    with Cons.prems have "\<forall>profile\<in>set profiles. profile_ok g hs u alphas nodes res profile"
      by (simp add: shells_ok_def sh)
    from profile_loop_succ [OF this] obtain r1 where
      pl: "profile_loop g hs u alphas dst nodes profiles res = Inr r1" by blast
    have shp: "same_shape res r1" using profile_loop_adds [OF pl] by (simp add: adds_def)
    have "shells_ok g hs u alphas profiles r1 sp"
      using Cons.prems shells_ok_shape [OF shp, of g hs u alphas profiles sp] by (simp add: shells_ok_def)
    from Cons.IH [OF this] pl show ?thesis by (simp add: sh False bind_err_def)
  qed
qed

lemma accumulated_mset:
  assumes "mset sp' = mset sp"
  shows "accumulated g hs u alphas profiles sp' a p = accumulated g hs u alphas profiles sp a p"
proof -
  have "sum_list (map f sp') = sum_list (map f sp)" for f :: "nat \<times> 'a list \<Rightarrow> real"
  proof -
    have "sum_mset (mset (map f sp')) = sum_mset (mset (map f sp))"
      using assms by simp
    then show ?thesis by (simp only: sum_mset_sum_list)
  qed
  then show ?thesis by (simp add: accumulated_def)
qed


lemma count_list_distinct: "distinct xs \<Longrightarrow> x \<in> set xs \<Longrightarrow> count_list xs x = 1"
  by (induction xs) auto

lemma sum_list_single_key:
  fixes h :: "'a \<Rightarrow> real"
  assumes "distinct (map f xs)" and "x \<in> set xs"
  shows "sum_list (map (\<lambda>y. if f y = f x then h y else 0) xs) = h x"
  using assms
proof (induction xs)
  case Nil
  then show ?case by simp
next
  case (Cons y ys)
  show ?case
  proof (cases "y = x")
    case True
    with Cons.prems have "f x \<notin> f ` set ys" by simp
    then have "\<forall>z\<in>set ys. f z \<noteq> f x" by (metis imageI)
    then have "sum_list (map (\<lambda>y. if f y = f x then h y else 0) ys) = 0"
      by (induction ys) simp_all
    with True show ?thesis by simp
  next
    case False
    with Cons.prems have x: "x \<in> set ys" and "f y \<notin> f ` set ys" by simp_all
    then have "f y \<noteq> f x" by (metis imageI)
    with Cons.IH x Cons.prems(1) show ?thesis by simp
  qed
qed

lemma accumulated_plain:
  assumes "distinct alphas" and "a \<in> set alphas"
    and "distinct (map (join ''_'') profiles)" and "profile \<in> set profiles"
  shows "accumulated g hs u alphas profiles sp a (join ''_'' profile)
     = sum_list (map (\<lambda>sh. if fst sh \<noteq> 0
                        then sim_of g hs u (snd sh) profile / py_pow (fst sh) (alpha_val a) else 0) sp)"
proof -
  have "profile_term g hs u alphas profiles dst nodes a (join ''_'' profile)
      = sim_of g hs u nodes profile / py_pow dst (alpha_val a)" for dst nodes
    unfolding profile_term_def
    using sum_list_single_key [OF assms(3,4), of "\<lambda>pr. alpha_term alphas (sim_of g hs u nodes pr) dst a"]
    by (simp add: alpha_term_def count_list_distinct [OF assms(1,2)])
  then have "shell_term g hs u alphas profiles a (join ''_'' profile)
      = (\<lambda>sh. if fst sh \<noteq> 0
               then sim_of g hs u (snd sh) profile / py_pow (fst sh) (alpha_val a) else 0)"
    by (intro ext) (simp add: shell_term_def)
  then show ?thesis by (simp add: accumulated_def)
qed

text \<open>
  C9. When the loop over the shells of \<open>u\<close> returns, every entry of \<open>u\<close> has grown by
  \<open>accumulated\<close>, a sum with one term per shell of distance \<open>dst \<noteq> 0\<close>, each built from
  the scorer's value for that shell alone; for alphas and profile names without repetition
  the term is \<open>sim / dst ** a\<close>. The loop run over any reordering of the shells returns too,
  with the same value in every entry.
\<close>

theorem shell_loop_order_invariant:
  assumes "shell_loop g hs u alphas profiles sp res = Inr r" and "mset sp' = mset sp"
  shows "(\<forall>a p n. score_at r a p n
            = map_option (\<lambda>x. x + (if n = u then accumulated g hs u alphas profiles sp a p else 0))
                (score_at res a p n))
     \<and> (\<forall>sh\<in>set sp. \<forall>profile\<in>set profiles. fst sh \<noteq> 0 \<longrightarrow>
            label_frequency g u (snd sh) profile hs = Inr (sim_of g hs u (snd sh) profile))
     \<and> (\<forall>a profile. distinct alphas \<and> a \<in> set alphas
            \<and> distinct (map (join ''_'') profiles) \<and> profile \<in> set profiles \<longrightarrow>
          accumulated g hs u alphas profiles sp a (join ''_'' profile)
            = sum_list (map (\<lambda>sh. if fst sh \<noteq> 0
                 then sim_of g hs u (snd sh) profile / py_pow (fst sh) (alpha_val a) else 0) sp))
     \<and> (\<exists>r'. shell_loop g hs u alphas profiles sp' res = Inr r'
            \<and> (\<forall>a p n. score_at r' a p n = score_at r a p n))"
proof (intro conjI)
  from shell_loop_adds [OF assms(1)]
  have a: "adds res r u (accumulated g hs u alphas profiles sp)"
    and ok: "shells_ok g hs u alphas profiles res sp" by auto
  show "\<forall>a p n. score_at r a p n
            = map_option (\<lambda>x. x + (if n = u then accumulated g hs u alphas profiles sp a p else 0))
                (score_at res a p n)"
    using a by (simp add: adds_def)
  show "\<forall>sh\<in>set sp. \<forall>profile\<in>set profiles. fst sh \<noteq> 0 \<longrightarrow>
            label_frequency g u (snd sh) profile hs = Inr (sim_of g hs u (snd sh) profile)"
  proof (intro ballI impI)
    fix sh profile
    assume "sh \<in> set sp" and "profile \<in> set profiles" and "fst sh \<noteq> 0"
    with ok have "\<exists>s. label_frequency g u (snd sh) profile hs = Inr s"
      unfolding shells_ok_def profile_ok_def by blast
    then obtain s where "label_frequency g u (snd sh) profile hs = Inr s" ..
    then show "label_frequency g u (snd sh) profile hs = Inr (sim_of g hs u (snd sh) profile)"
      by (simp add: sim_of_def)
  qed
  show "\<forall>a profile. distinct alphas \<and> a \<in> set alphas
            \<and> distinct (map (join ''_'') profiles) \<and> profile \<in> set profiles \<longrightarrow>
          accumulated g hs u alphas profiles sp a (join ''_'' profile)
            = sum_list (map (\<lambda>sh. if fst sh \<noteq> 0
                 then sim_of g hs u (snd sh) profile / py_pow (fst sh) (alpha_val a) else 0) sp)"
    by (intro allI impI accumulated_plain) simp_all
  have "set sp' = set sp" using assms(2) by (rule mset_eq_setD)
  with ok have "shells_ok g hs u alphas profiles res sp'" by (simp add: shells_ok_def)
  from shell_loop_succ [OF this] obtain r' where
    r': "shell_loop g hs u alphas profiles sp' res = Inr r'" by blast
  from shell_loop_adds [OF r'] have a': "adds res r' u (accumulated g hs u alphas profiles sp')"
    by simp
  have "score_at r' a p n = score_at r a p n" for a p n
    using a a' accumulated_mset [OF assms(2), of g hs u alphas profiles a p] by (simp add: adds_def)
  with r' show "\<exists>r'. shell_loop g hs u alphas profiles sp' res = Inr r'
            \<and> (\<forall>a p n. score_at r' a p n = score_at r a p n)" by blast
qed

text \<open>
  From \<open>A\<close>, the shells \<open>{1: [B], 2: [C]}\<close> give \<open>-1/1 + 1/2\<close>; so does the order
  \<open>{2: [C], 1: [B]}\<close>.
\<close>

lemma ex_shell_loop:
  "shell_loop ex_g None ''A'' [IntAlpha 1] [[''l'']] [(1, [''B'']), (2, [''C''])] ex_res0
     = Inr [(IntAlpha 1, [(''l'', [(''A'', - (1 / 2)), (''B'', 0), (''C'', 0), (''D'', 0)])])]"
  by (simp add: ex_res0_def init_res_def dict_comp_def label_frequency_def
      sgn_entry_def indicator_def distance_def f_label_def modify_entry_def py_pow_def ex_simps)

theorem shell_loop_order_invariant_witness:
  "\<exists>r'. shell_loop ex_g None ''A'' [IntAlpha 1] [[''l'']] [(2, [''C'']), (1, [''B''])] ex_res0 = Inr r'
      \<and> score_at r' (IntAlpha 1) ''l'' ''A'' = Some (- (1 / 2))"
proof -
  have m: "mset [(2::nat, [''C'']), (1, [''B''])] = mset [(1, [''B'']), (2, [''C''])]" by simp
  from shell_loop_order_invariant [OF ex_shell_loop m]
  obtain r' where "shell_loop ex_g None ''A'' [IntAlpha 1] [[''l'']] [(2, [''C'']), (1, [''B''])] ex_res0 = Inr r'"
    and "\<forall>a p n. score_at r' a p n
       = score_at [(IntAlpha 1, [(''l'', [(''A'', - (1 / 2)), (''B'', 0), (''C'', 0), (''D'', 0)])])] a p n"
    by blast
  then show ?thesis by (simp add: score_at_def)
qed

subsection \<open>Normalisation\<close>

lemma py_div_Inr: "py_div x y = Inr z \<longleftrightarrow> y \<noteq> 0 \<and> z = x / y"
  by (auto simp: py_div_def)

lemma normalize_profiles_effect:
  assumes "normalize_profiles u a nrm ps res = Inr res'"
  shows "same_shape res res'
     \<and> (\<forall>a' p' n. score_at res' a' p' n
           = (if a' = a \<and> n = u
              then map_option (\<lambda>x. x / nrm ^ count_list ps p') (score_at res a' p' n)
              else score_at res a' p' n))"
  using assms
proof (induction ps arbitrary: res)
  case Nil
  then show ?case by (simp add: same_shape_refl option.map_ident)
next
  case (Cons q qs)
  from Cons.prems obtain r1 where
    m: "modify_entry (\<lambda>x. py_div x nrm) a q u res = Inr r1"
    and l: "normalize_profiles u a nrm qs r1 = Inr res'"
    by (auto simp: bind_err_eq_Inr)
  from modify_entry_Inr [OF m] obtain x where
    x: "score_at res a q u = Some x" and nz: "nrm \<noteq> 0"
    and s: "\<And>a' p' n. score_at r1 a' p' n
             = (if a' = a \<and> p' = q \<and> n = u then Some (x / nrm) else score_at res a' p' n)"
    and k: "\<And>a'. profile_keys r1 a' = profile_keys res a'"
    by (auto simp: py_div_Inr)
  have sh1: "same_shape res r1"
    using x by (simp add: same_shape_def k s)
  from Cons.IH [OF l] have sh2: "same_shape r1 res'"
    and e: "\<And>a' p' n. score_at res' a' p' n
           = (if a' = a \<and> n = u
              then map_option (\<lambda>x. x / nrm ^ count_list qs p') (score_at r1 a' p' n)
              else score_at r1 a' p' n)"
    by auto
  have "score_at res' a' p' n
           = (if a' = a \<and> n = u
              then map_option (\<lambda>x. x / nrm ^ count_list (q # qs) p') (score_at res a' p' n)
              else score_at res a' p' n)" for a' p' n
    using x by (cases "score_at res a' p' n") (auto simp: e s)
  with same_shape_trans [OF sh1 sh2] show ?case by simp
qed

lemma profile_keys_score:
  assumes "profile_keys res a = Some ks" and "p \<notin> set ks"
  shows "score_at res a p n = None"
proof -
  from assms(1) obtain pm where pm: "map_of res a = Some pm" and ks: "ks = map fst pm"
    by (auto simp: profile_keys_def)
  with assms(2) have "map_of pm p = None"
    by (simp add: map_of_eq_None_iff)
  with pm show ?thesis by (simp add: score_at_def)
qed

lemma wf_scores_shape: "same_shape res res' \<Longrightarrow> wf_scores res \<Longrightarrow> wf_scores res'"
  by (simp add: wf_scores_def same_shape_def)

lemma normalize_scores_effect:
  assumes "normalize_scores u res max_dist alphas = Inr res'" and "wf_scores res"
  shows "same_shape res res'
     \<and> (\<forall>a p n. score_at res' a p n
           = (if n = u
              then map_option (\<lambda>x. x / norm_of a max_dist ^ count_list alphas a) (score_at res a p n)
              else score_at res a p n))"
  using assms
proof (induction alphas arbitrary: res)
  case Nil
  then show ?case by (simp add: same_shape_refl option.map_ident)
next
  case (Cons b bs)
  let ?N = "norm_of b max_dist"
  from Cons.prems(1) obtain pm r1 where
    pm: "map_of res b = Some pm"
    and np: "normalize_profiles u b ?N (map fst pm) res = Inr r1"
    and l: "normalize_scores u r1 max_dist bs = Inr res'"
    by (auto simp: bind_err_eq_Inr dict_get_eq_Inr)
  have ks: "profile_keys res b = Some (map fst pm)"
    by (simp add: profile_keys_def pm)
  with Cons.prems(2) have d: "distinct (map fst pm)"
    by (simp add: wf_scores_def)
  from normalize_profiles_effect [OF np] have sh1: "same_shape res r1"
    and e1: "\<And>a' p' n. score_at r1 a' p' n
           = (if a' = b \<and> n = u
              then map_option (\<lambda>x. x / ?N ^ count_list (map fst pm) p') (score_at res a' p' n)
              else score_at res a' p' n)"
    by auto
  have e1': "score_at r1 a' p' n
           = (if a' = b \<and> n = u then map_option (\<lambda>x. x / ?N) (score_at res a' p' n)
              else score_at res a' p' n)" for a' p' n
  proof (cases "p' \<in> set (map fst pm)")
    case True
    with d have "count_list (map fst pm) p' = 1" by (rule count_list_distinct)
    then show ?thesis by (simp add: e1)
  next
    case False
    with ks have "score_at res b p' m = None" for m by (rule profile_keys_score)
    then show ?thesis by (simp add: e1)
  qed
  from Cons.IH [OF l wf_scores_shape [OF sh1 Cons.prems(2)]] have sh2: "same_shape r1 res'"
    and e2: "\<And>a p n. score_at res' a p n
           = (if n = u
              then map_option (\<lambda>x. x / norm_of a max_dist ^ count_list bs a) (score_at r1 a p n)
              else score_at r1 a p n)"
    by auto
  have "score_at res' a p n
           = (if n = u
              then map_option (\<lambda>x. x / norm_of a max_dist ^ count_list (b # bs) a) (score_at res a p n)
              else score_at res a p n)" for a p n
    by (cases "score_at res a p n") (auto simp: e2 e1')
  with same_shape_trans [OF sh1 sh2] show ?case by simp
qed

lemma shells_of_keys_aux:
  "fst ` set (fold (\<lambda>(node, dst) d. AList.update dst (dict_get_default [] d dst @ [node]) d) ds acc)
     = fst ` set acc \<union> snd ` set ds"
  by (induction ds arbitrary: acc) (auto simp: dom_update split: prod.splits)

lemma shells_of_keys: "fst ` set (shells_of ds) = snd ` set ds"
  by (simp add: shells_of_def shells_of_keys_aux)

lemma shells_of_empty: "shells_of ds = [] \<longleftrightarrow> ds = []"
proof -
  have "shells_of ds = [] \<longleftrightarrow> fst ` set (shells_of ds) = {}" by simp
  then show ?thesis by (simp add: shells_of_keys)
qed

lemma norm_of_sum: "norm_of a max_dist = (\<Sum>k = 1..max_dist. real k powr (- alpha_val a))"
proof -
  have "norm_of a max_dist = sum_list (map (\<lambda>k. real k powr (- alpha_val a)) [1 ..< max_dist + 1])"
    by (simp only: norm_of_def py_pow_def)
  also have "\<dots> = sum (\<lambda>k. real k powr (- alpha_val a)) (set [1 ..< max_dist + 1])"
    by (rule interv_sum_list_conv_sum_set_nat)
  also have "set [1 ..< max_dist + 1] = {1..max_dist}" by auto
  finally show ?thesis .
qed

lemma norm_of_example: "norm_of (IntAlpha 1) 3 = 11 / 6"
  by (simp add: norm_of_def py_pow_def upt_rec powr_minus)

text \<open>
  C5. In the step of a node \<open>u\<close> that has an observed distance, the loop over the shells
  returns an accumulator \<open>acc\<close>, and \<^verbatim>\<open>__normalize\<close> leaves in every entry of \<open>u\<close> the
  accumulated value divided by \<open>norm\<close>, the sum of \<open>k ** -alpha\<close> for \<open>k\<close> from \<open>1\<close> to the
  largest distance recorded for \<open>u\<close> itself. The division is done once for each occurrence of
  \<open>alpha\<close> in \<open>alphas\<close>, hence once when no alpha is repeated. For \<open>alpha = 1\<close> and the
  largest distance \<open>3\<close> the divisor is \<open>1 + 1/2 + 1/3 = 11/6\<close>.
\<close>

theorem node_step_normalizes:
  assumes "wf_scores res"
    and "node_step g hs alphas profiles distances u res = Inr res'"
    and "dict_get_default [] distances u \<noteq> []"
  shows "(\<exists>acc. shell_loop g hs u alphas profiles (shells_of (dict_get_default [] distances u)) res = Inr acc
          \<and> (\<forall>a p. score_at res' a p u
                = map_option (\<lambda>x. x / norm_of a (Max (snd ` set (dict_get_default [] distances u)))
                                      ^ count_list alphas a) (score_at acc a p u))
          \<and> (\<forall>a p. distinct alphas \<and> a \<in> set alphas \<longrightarrow> score_at res' a p u
                = map_option (\<lambda>x. x / norm_of a (Max (snd ` set (dict_get_default [] distances u))))
                    (score_at acc a p u)))
     \<and> (\<forall>a max_dist. norm_of a max_dist = (\<Sum>k = 1..max_dist. real k powr (- alpha_val a)))
     \<and> norm_of (IntAlpha 1) 3 = 1 + 1 / 2 + 1 / 3 \<and> norm_of (IntAlpha 1) 3 = 11 / 6"
proof -
  let ?ds = "dict_get_default [] distances u"
  let ?sp = "shells_of ?ds"
  have ne: "?sp \<noteq> []" using assms(3) by (simp add: shells_of_empty)
  have mx: "fst ` set ?sp = snd ` set ?ds" by (rule shells_of_keys)
  from assms(2) ne obtain acc where
    acc: "shell_loop g hs u alphas profiles ?sp res = Inr acc"
    and nm: "normalize_scores u acc (Max (snd ` set ?ds)) alphas = Inr res'"
    by (auto simp: node_step_def Let_def bind_err_eq_Inr mx)
  have "same_shape res acc" using shell_loop_adds [OF acc] by (simp add: adds_def)
  then have "wf_scores acc" using assms(1) by (rule wf_scores_shape)
  from normalize_scores_effect [OF nm this]
  have e: "\<And>a p. score_at res' a p u
      = map_option (\<lambda>x. x / norm_of a (Max (snd ` set ?ds)) ^ count_list alphas a) (score_at acc a p u)"
    by simp
  then have "\<forall>a p. distinct alphas \<and> a \<in> set alphas \<longrightarrow> score_at res' a p u
                = map_option (\<lambda>x. x / norm_of a (Max (snd ` set ?ds))) (score_at acc a p u)"
    by (simp add: count_list_distinct)
  with acc e norm_of_sum norm_of_example show ?thesis by auto
qed


text \<open>
  For \<open>A\<close> with \<open>B\<close> at distance \<open>1\<close> and \<open>C\<close> at distance \<open>3\<close>: the accumulator
  \<open>-1 + 1/3\<close> over \<open>11/6\<close> is \<open>-4/11\<close>.
\<close>

lemma ex_res0_wf: "wf_scores ex_res0"
  by (simp add: wf_scores_def profile_keys_def ex_res0_def init_res_def dict_comp_def)

lemma ex_node_step:
  "node_step ex_g None [IntAlpha 1] [[''l'']] [(''A'', [(''B'', 1), (''C'', 3)])] ''A'' ex_res0
     = Inr [(IntAlpha 1, [(''l'', [(''A'', - (4 / 11)), (''B'', 0), (''C'', 0), (''D'', 0)])])]"
  by (simp add: node_step_def shells_of_def dict_get_default_def ex_res0_def init_res_def dict_comp_def
      label_frequency_def sgn_entry_def indicator_def distance_def f_label_def modify_entry_def
      py_pow_def py_div_def norm_of_def upt_rec powr_minus ex_simps)

theorem node_step_normalizes_witness:
  "\<exists>acc. shell_loop ex_g None ''A'' [IntAlpha 1] [[''l'']] (shells_of [(''B'', 1), (''C'', 3)]) ex_res0 = Inr acc
      \<and> Some (- (4 / 11)) = map_option (\<lambda>x. x / norm_of (IntAlpha 1) 3) (score_at acc (IntAlpha 1) ''l'' ''A'')
      \<and> norm_of (IntAlpha 1) 3 = 11 / 6"
proof -
  let ?r = "[(IntAlpha 1, [(''l'', [(''A'', - (4 / 11)), (''B'', 0), (''C'', 0), (''D'', 0::real)])])]"
  have ds: "dict_get_default [] [(''A'', [(''B'', 1::nat), (''C'', 3)])] ''A'' = [(''B'', 1), (''C'', 3)]"
    by (simp add: dict_get_default_def)
  then have ne: "dict_get_default [] [(''A'', [(''B'', 1::nat), (''C'', 3)])] ''A'' \<noteq> []"
    by simp
  have mx: "Max (snd ` set [(''B'', 1::nat), (''C'', 3)]) = 3" by simp
  from node_step_normalizes [OF ex_res0_wf ex_node_step ne, unfolded ds mx]
  obtain acc where acc: "shell_loop ex_g None ''A'' [IntAlpha 1] [[''l'']]
        (shells_of [(''B'', 1), (''C'', 3)]) ex_res0 = Inr acc"
    and e: "\<forall>a p. distinct [IntAlpha 1] \<and> a \<in> set [IntAlpha 1] \<longrightarrow>
        score_at ?r a p ''A'' = map_option (\<lambda>x. x / norm_of a 3) (score_at acc a p ''A'')"
    and n: "norm_of (IntAlpha 1) 3 = 11 / 6"
    by blast
  from e have "score_at ?r (IntAlpha 1) ''l'' ''A''
      = map_option (\<lambda>x. x / norm_of (IntAlpha 1) 3) (score_at acc (IntAlpha 1) ''l'' ''A'')"
    by simp
  moreover have "score_at ?r (IntAlpha 1) ''l'' ''A'' = Some (- (4 / 11))"
    by (simp add: score_at_def)
  ultimately show ?thesis using acc n by metis
qed

subsection \<open>The entries of the result\<close>

lemma dict_comp_const_aux:
  "map_of (fold (\<lambda>x d. AList.update (kf x) c d) xs d0) k
     = (if k \<in> kf ` set xs then Some c else map_of d0 k)"
  by (induction xs arbitrary: d0) (auto simp: update_conv')

lemma dict_comp_const:
  "map_of (dict_comp kf (\<lambda>x. c) xs) k = (if k \<in> kf ` set xs then Some c else None)"
  by (simp add: dict_comp_def dict_comp_const_aux)

lemma init_res_score:
  assumes "a \<in> set alphas" and "profile \<in> set profiles" and "n \<in> set ns"
  shows "score_at (init_res ns profiles alphas) a (join ''_'' profile) n = Some 0"
  using assms by (simp add: score_at_def init_res_def dict_comp_const)

text \<open>The step of a node changes the entries of that node only, and no key.\<close>

lemma normalize_scores_touches:
  assumes "normalize_scores u res max_dist alphas = Inr res'"
  shows "same_shape res res' \<and> (\<forall>a p n. n \<noteq> u \<longrightarrow> score_at res' a p n = score_at res a p n)"
  using assms
proof (induction alphas arbitrary: res)
  case Nil
  then show ?case by (simp add: same_shape_refl)
next
  case (Cons b bs)
  from Cons.prems obtain pm r1 where
    pm: "map_of res b = Some pm"
    and np: "normalize_profiles u b (norm_of b max_dist) (map fst pm) res = Inr r1"
    and l: "normalize_scores u r1 max_dist bs = Inr res'"
    by (auto simp: bind_err_eq_Inr dict_get_eq_Inr)
  from normalize_profiles_effect [OF np] have sh1: "same_shape res r1"
    and e1: "\<And>a p n. n \<noteq> u \<Longrightarrow> score_at r1 a p n = score_at res a p n"
    by auto
  from Cons.IH [OF l] have sh2: "same_shape r1 res'"
    and e2: "\<And>a p n. n \<noteq> u \<Longrightarrow> score_at res' a p n = score_at r1 a p n"
    by auto
  from same_shape_trans [OF sh1 sh2] e1 e2 show ?case by simp
qed

lemma node_step_touches:
  assumes "node_step g hs alphas profiles distances u res = Inr res'"
  shows "same_shape res res' \<and> (\<forall>a p n. n \<noteq> u \<longrightarrow> score_at res' a p n = score_at res a p n)"
proof -
  let ?sp = "shells_of (dict_get_default [] distances u)"
  from assms obtain acc where
    acc: "shell_loop g hs u alphas profiles ?sp res = Inr acc"
    and nm: "(if length ?sp > 0 then normalize_scores u acc (Max (set (map fst ?sp))) alphas else Inr acc)
               = Inr res'"
    by (auto simp: node_step_def Let_def bind_err_eq_Inr)
  from shell_loop_adds [OF acc] have sh1: "same_shape res acc"
    and e1: "\<And>a p n. n \<noteq> u \<Longrightarrow> score_at acc a p n = score_at res a p n"
    by (auto simp: adds_def option.map_ident)
  show ?thesis
  proof (cases "length ?sp > 0")
    case True
    with nm have "normalize_scores u acc (Max (set (map fst ?sp))) alphas = Inr res'" by simp
    from normalize_scores_touches [OF this] have sh2: "same_shape acc res'"
      and e2: "\<And>a p n. n \<noteq> u \<Longrightarrow> score_at res' a p n = score_at acc a p n"
      by auto
    from same_shape_trans [OF sh1 sh2] e1 e2 show ?thesis by simp
  next
    case False
    with nm have "res' = acc" by simp
    with sh1 e1 show ?thesis by simp
  qed
qed

text \<open>
  For a node whose recorded lengths are all \<open>0\<close> the loop over the shells changes nothing, and
  \<^verbatim>\<open>__normalize\<close>, called with \<open>max_dist = 0\<close>, either divides by \<open>0\<close> and raises or finds
  no profile and changes nothing.
\<close>

lemma norm_of_zero: "norm_of a 0 = 0"
  by (simp add: norm_of_def)

lemma normalize_profiles_zero:
  assumes "normalize_profiles u a 0 ps res = Inr res'"
  shows "res' = res"
proof (cases ps)
  case Nil
  with assms show ?thesis by simp
next
  case (Cons q qs)
  with assms obtain r1 where "modify_entry (\<lambda>x. py_div x 0) a q u res = Inr r1"
    by (auto simp: bind_err_eq_Inr)
  from modify_entry_Inr [OF this] show ?thesis by (auto simp: py_div_Inr)
qed

lemma normalize_scores_zero:
  assumes "normalize_scores u res 0 alphas = Inr res'"
  shows "res' = res"
  using assms
proof (induction alphas arbitrary: res)
  case Nil
  then show ?case by simp
next
  case (Cons b bs)
  from Cons.prems obtain pm r1 where
    pm: "map_of res b = Some pm"
    and np: "normalize_profiles u b 0 (map fst pm) res = Inr r1"
    and l: "normalize_scores u r1 0 bs = Inr res'"
    by (auto simp: bind_err_eq_Inr dict_get_eq_Inr norm_of_zero)
  from normalize_profiles_zero [OF np] Cons.IH [OF l] show ?case by simp
qed

lemma shell_loop_all_zero:
  assumes "\<forall>sh\<in>set sp. fst sh = 0"
  shows "shell_loop g hs u alphas profiles sp res = Inr res"
  using assms
proof (induction sp)
  case Nil
  then show ?case by simp
next
  case (Cons sh sp)
  obtain dst nodes where "sh = (dst, nodes)" by (cases sh)
  with Cons show ?case by simp
qed

lemma node_step_zero:
  assumes "\<forall>vd\<in>set (dict_get_default [] distances u). snd vd = 0"
    and "node_step g hs alphas profiles distances u res = Inr res'"
  shows "res' = res"
proof -
  define sp where "sp = shells_of (dict_get_default [] distances u)"
  have keys: "fst ` set sp = snd ` set (dict_get_default [] distances u)"
    unfolding sp_def by (rule shells_of_keys)
  have z: "\<forall>sh\<in>set sp. fst sh = 0"
  proof
    fix sh assume "sh \<in> set sp"
    then have "fst sh \<in> snd ` set (dict_get_default [] distances u)"
      using keys by blast
    then obtain vd where "vd \<in> set (dict_get_default [] distances u)" and "fst sh = snd vd"
      by blast
    with assms(1) show "fst sh = 0" by simp
  qed
  then have sl: "shell_loop g hs u alphas profiles sp res = Inr res"
    by (rule shell_loop_all_zero)
  from assms(2) have st: "bind_err (shell_loop g hs u alphas profiles sp res) (\<lambda>res'.
        if length sp > 0 then normalize_scores u res' (Max (set (map fst sp))) alphas
        else Inr res') = Inr res'"
    unfolding node_step_def sp_def Let_def .
  show ?thesis
  proof (cases "sp = []")
    case True
    with st sl show ?thesis by (simp add: bind_err_Inr)
  next
    case False
    then obtain sh where "sh \<in> set sp" by (cases sp) auto
    with z have "0 \<in> fst ` set sp" by force
    moreover from z have "fst ` set sp \<subseteq> {0}" by auto
    ultimately have "fst ` set sp = {0}" by blast
    then have "Max (set (map fst sp)) = 0" by simp
    with st sl False have "normalize_scores u res 0 alphas = Inr res'"
      by (simp add: bind_err_Inr)
    then show ?thesis by (rule normalize_scores_zero)
  qed
qed

lemma set_update_subset: "set (AList.update k v al) \<subseteq> insert (k, v) (set al)"
  by (induction al) auto

lemma make_distances_mem_aux:
  assumes "(v, d) \<in> set (dict_get_default []
      (fold (\<lambda>((a, b), d) D. AList.update a (AList.update b d (dict_get_default [] D a)) D) sp D0) u)"
  shows "((u, v), d) \<in> set sp \<or> (v, d) \<in> set (dict_get_default [] D0 u)"
  using assms
proof (induction sp arbitrary: D0)
  case Nil
  then show ?case by simp
next
  case (Cons x xs)
  obtain a b e where x: "x = ((a, b), e)" by (cases x) auto
  let ?D1 = "AList.update a (AList.update b e (dict_get_default [] D0 a)) D0"
  from Cons.prems x have "(v, d) \<in> set (dict_get_default []
      (fold (\<lambda>((a, b), d) D. AList.update a (AList.update b d (dict_get_default [] D a)) D) xs ?D1) u)"
    by simp
  from Cons.IH [OF this] have "((u, v), d) \<in> set xs \<or> (v, d) \<in> set (dict_get_default [] ?D1 u)" .
  moreover have "(v, d) \<in> set (dict_get_default [] ?D1 u)
      \<Longrightarrow> ((u, v), d) = x \<or> (v, d) \<in> set (dict_get_default [] D0 u)"
  proof (cases "u = a")
    case True
    assume "(v, d) \<in> set (dict_get_default [] ?D1 u)"
    with True have "(v, d) \<in> set (AList.update b e (dict_get_default [] D0 a))"
      by (simp add: dict_get_default_def update_conv')
    with set_update_subset [of b e "dict_get_default [] D0 a"]
    have "(v, d) = (b, e) \<or> (v, d) \<in> set (dict_get_default [] D0 a)" by blast
    with True show ?thesis by (auto simp: x)
  next
    case False
    assume "(v, d) \<in> set (dict_get_default [] ?D1 u)"
    with False show ?thesis by (simp add: dict_get_default_def update_conv')
  qed
  ultimately show ?case by auto
qed

lemma make_distances_mem:
  "(v, d) \<in> set (dict_get_default [] (make_distances sp) u) \<Longrightarrow> ((u, v), d) \<in> set sp"
  using make_distances_mem_aux [of v d sp "[]" u] by (simp add: make_distances_def dict_get_default_def)

lemma node_loop_invariant:
  assumes "node_loop g hs alphas profiles distances us res = Inr res'"
  shows "same_shape res res'
     \<and> ((\<forall>vd\<in>set (dict_get_default [] distances u). snd vd = 0)
          \<longrightarrow> (\<forall>a p. score_at res' a p u = score_at res a p u))"
  using assms
proof (induction us arbitrary: res)
  case Nil
  then show ?case by (simp add: same_shape_refl)
next
  case (Cons w ws)
  from Cons.prems obtain r1 where
    st: "node_step g hs alphas profiles distances w res = Inr r1"
    and l: "node_loop g hs alphas profiles distances ws r1 = Inr res'"
    by (auto simp: bind_err_eq_Inr)
  from node_step_touches [OF st] have sh1: "same_shape res r1"
    and e1: "\<And>a p n. n \<noteq> w \<Longrightarrow> score_at r1 a p n = score_at res a p n" by auto
  from Cons.IH [OF l] have sh2: "same_shape r1 res'"
    and e2: "(\<forall>vd\<in>set (dict_get_default [] distances u). snd vd = 0)
          \<longrightarrow> (\<forall>a p. score_at res' a p u = score_at r1 a p u)" by auto
  have "\<forall>a p. score_at r1 a p u = score_at res a p u"
    if z: "\<forall>vd\<in>set (dict_get_default [] distances u). snd vd = 0"
  proof (cases "w = u")
    case True
    with z st have "r1 = res" by (auto dest: node_step_zero)
    then show ?thesis by simp
  next
    case False
    then show ?thesis using e1 by simp
  qed
  with e2 same_shape_trans [OF sh1 sh2] show ?case by simp
qed

text \<open>
  C4. When \<^verbatim>\<open>delta_conformity\<close> returns, the slice \<open>g\<close> and the path lengths \<open>sp\<close> were
  obtained, and the result has an entry for every node of \<open>g\<close> under every alpha and every
  generated profile. The entry is \<open>0\<close> for a node from which \<open>sp\<close> records no length
  other than \<open>0\<close>.
\<close>

theorem delta_conformity_entries:
  assumes "delta_conformity dg start delta alphas labels profile_size hierarchies path_type = Inr res"
  shows "\<exists>g sp. time_slice dg start (start + delta) = Inr g
       \<and> path_lengths dg g start (delta + start) path_type = Inr sp
       \<and> (\<forall>a\<in>set alphas. \<forall>profile\<in>set (make_profiles labels profile_size). \<forall>n\<in>set (g_nodes g).
            \<exists>x. score_at res a (join ''_'' profile) n = Some x
               \<and> ((\<forall>v d. ((n, v), d) \<in> set sp \<longrightarrow> d = 0) \<longrightarrow> x = 0))"
proof -
  let ?profiles = "make_profiles labels profile_size"
  from assms obtain g sp where
    g: "time_slice dg start (start + delta) = Inr g"
    and sp: "path_lengths dg g start (delta + start) path_type = Inr sp"
    and nl: "node_loop g hierarchies alphas ?profiles (make_distances sp) (g_nodes g)
               (init_res (g_nodes g) ?profiles alphas) = Inr res"
    by (auto simp: delta_conformity_def Let_def bind_err_eq_Inr split: if_splits)
  have "\<exists>x. score_at res a (join ''_'' profile) n = Some x
               \<and> ((\<forall>v d. ((n, v), d) \<in> set sp \<longrightarrow> d = 0) \<longrightarrow> x = 0)"
    if a: "a \<in> set alphas" and p: "profile \<in> set ?profiles" and n: "n \<in> set (g_nodes g)"
    for a profile n
  proof -
    have i: "score_at (init_res (g_nodes g) ?profiles alphas) a (join ''_'' profile) n = Some 0"
      using a p n by (rule init_res_score)
    from node_loop_invariant [OF nl, of n]
    have sh: "same_shape (init_res (g_nodes g) ?profiles alphas) res"
      and z: "(\<forall>vd\<in>set (dict_get_default [] (make_distances sp) n). snd vd = 0)
          \<longrightarrow> score_at res a (join ''_'' profile) n = Some 0"
      using i by auto
    from sh have "(score_at res a (join ''_'' profile) n = None)
        = (score_at (init_res (g_nodes g) ?profiles alphas) a (join ''_'' profile) n = None)"
      unfolding same_shape_def by blast
    with i have "score_at res a (join ''_'' profile) n \<noteq> None" by simp
    then obtain x where x: "score_at res a (join ''_'' profile) n = Some x" by blast
    have "x = 0" if "\<forall>v d. ((n, v), d) \<in> set sp \<longrightarrow> d = 0"
    proof -
      have "\<forall>vd\<in>set (dict_get_default [] (make_distances sp) n). snd vd = 0"
      proof
        fix vd assume "vd \<in> set (dict_get_default [] (make_distances sp) n)"
        then have "(fst vd, snd vd) \<in> set (dict_get_default [] (make_distances sp) n)" by simp
        then have "((n, fst vd), snd vd) \<in> set sp" by (rule make_distances_mem)
        with that show "snd vd = 0" by blast
      qed
      with z x show ?thesis by simp
    qed
    with x show ?thesis by simp
  qed
  with g sp show ?thesis by blast
qed

text \<open>On \<open>ex_dg\<close> no path leaves \<open>D\<close>: its entry is \<open>0\<close>.\<close>

theorem delta_conformity_entries_witness:
  "\<exists>x. score_at [(IntAlpha 1, [(''l'', [(''A'', 0), (''B'', - (1 / 2)), (''C'', 1 / 2), (''D'', 0::real)])])]
          (IntAlpha 1) ''l'' ''D'' = Some x \<and> x = 0"
proof -
  from delta_conformity_entries [OF ex_delta]
  obtain g sp where g: "time_slice ex_dg 1 (1 + 5) = Inr g"
    and sp: "path_lengths ex_dg g 1 (5 + 1) ''shortest'' = Inr sp"
    and e: "\<forall>a\<in>set [IntAlpha 1]. \<forall>profile\<in>set (make_profiles [''l''] 1). \<forall>n\<in>set (g_nodes g).
            \<exists>x. score_at [(IntAlpha 1, [(''l'', [(''A'', 0), (''B'', - (1 / 2)), (''C'', 1 / 2), (''D'', 0::real)])])]
                    a (join ''_'' profile) n = Some x
               \<and> ((\<forall>v d. ((n, v), d) \<in> set sp \<longrightarrow> d = 0) \<longrightarrow> x = 0)"
    by blast
  from g have g': "g = ex_g" by (simp add: ex_dg_def)
  from sp have sp': "sp = [((''A'', ''B''), 1), ((''A'', ''C''), 1), ((''B'', ''A''), 1), ((''C'', ''A''), 1)]"
    by (simp add: ex_dg_def)
  have m: "IntAlpha 1 \<in> set [IntAlpha 1]" "[''l''] \<in> set (make_profiles [''l''] 1)"
      "''D'' \<in> set (g_nodes g)"
    by (simp_all add: make_profiles_def upto.simps g' ex_g_def)
  have z: "\<forall>v d. ((''D'', v), d) \<in> set sp \<longrightarrow> d = 0" by (simp add: sp')
  from e m z show ?thesis by fastforce
qed

subsection \<open>The whole run\<close>

lemma dict_comp_distinct_aux:
  "distinct (map fst d0) \<Longrightarrow> distinct (map fst (fold (\<lambda>x d. AList.update (kf x) (vf x) d) xs d0))"
  by (induction xs arbitrary: d0) (simp_all add: distinct_update)

lemma dict_comp_distinct: "distinct (map fst (dict_comp kf vf xs))"
  by (simp add: dict_comp_def dict_comp_distinct_aux)

lemma init_res_wf: "wf_scores (init_res ns profiles alphas)"
proof -
  have "distinct ks" if "profile_keys (init_res ns profiles alphas) a = Some ks" for a ks
  proof -
    from that have "ks = map fst (dict_comp (join ''_'') (\<lambda>profile. dict_comp (\<lambda>n. n) (\<lambda>n. 0::real) ns) profiles)"
      by (auto simp: profile_keys_def init_res_def dict_comp_const split: if_splits)
    then show ?thesis by (simp add: dict_comp_distinct)
  qed
  then show ?thesis by (simp add: wf_scores_def)
qed

text \<open>
  The step of a node with an observed distance, in one formula: the old entry plus the
  accumulated sum, divided by the norm.
\<close>

lemma node_step_effect:
  assumes "wf_scores res"
    and "node_step g hs alphas profiles distances u res = Inr res'"
    and "dict_get_default [] distances u \<noteq> []"
  shows "score_at res' a p u
     = map_option (\<lambda>x. (x + accumulated g hs u alphas profiles (shells_of (dict_get_default [] distances u)) a p)
                         / norm_of a (Max (snd ` set (dict_get_default [] distances u))) ^ count_list alphas a)
         (score_at res a p u)"
proof -
  define ds where "ds = dict_get_default [] distances u"
  define sp where "sp = shells_of ds"
  have ne: "sp \<noteq> []" using assms(3) by (simp add: sp_def ds_def shells_of_empty)
  have mx: "fst ` set sp = snd ` set ds"
    unfolding sp_def by (rule shells_of_keys)
  from assms(2) have "bind_err (shell_loop g hs u alphas profiles sp res) (\<lambda>res'.
        if length sp > 0 then normalize_scores u res' (Max (set (map fst sp))) alphas
        else Inr res') = Inr res'"
    unfolding node_step_def sp_def ds_def Let_def .
  with ne obtain acc where
    acc: "shell_loop g hs u alphas profiles sp res = Inr acc"
    and nm: "normalize_scores u acc (Max (snd ` set ds)) alphas = Inr res'"
    by (auto simp: bind_err_eq_Inr mx)
  from shell_loop_adds [OF acc] have ad: "adds res acc u (accumulated g hs u alphas profiles sp)"
    by simp
  then have "same_shape res acc" by (simp add: adds_def)
  then have "wf_scores acc" using assms(1) by (rule wf_scores_shape)
  from normalize_scores_effect [OF nm this]
  have "score_at res' a p u
      = map_option (\<lambda>x. x / norm_of a (Max (snd ` set ds)) ^ count_list alphas a) (score_at acc a p u)"
    by simp
  moreover from ad have "score_at acc a p u
      = map_option (\<lambda>x. x + accumulated g hs u alphas profiles sp a p) (score_at res a p u)"
    by (simp add: adds_def)
  ultimately show ?thesis
    by (cases "score_at res a p u") (simp_all add: sp_def ds_def)
qed

lemma node_loop_untouched:
  assumes "node_loop g hs alphas profiles distances us res = Inr res'" and "u \<notin> set us"
  shows "score_at res' a p u = score_at res a p u"
  using assms
proof (induction us arbitrary: res)
  case Nil
  then show ?case by simp
next
  case (Cons w ws)
  from Cons.prems(1) obtain r1 where
    st: "node_step g hs alphas profiles distances w res = Inr r1"
    and l: "node_loop g hs alphas profiles distances ws r1 = Inr res'"
    by (auto simp: bind_err_eq_Inr)
  from Cons.prems(2) have "u \<noteq> w" and "u \<notin> set ws" by auto
  with node_step_touches [OF st] Cons.IH [OF l] show ?case by simp
qed

lemma node_loop_score:
  assumes "node_loop g hs alphas profiles distances us res = Inr res'"
    and "wf_scores res" and "distinct us" and "u \<in> set us"
    and "dict_get_default [] distances u \<noteq> []"
  shows "score_at res' a p u
     = map_option (\<lambda>x. (x + accumulated g hs u alphas profiles (shells_of (dict_get_default [] distances u)) a p)
                         / norm_of a (Max (snd ` set (dict_get_default [] distances u))) ^ count_list alphas a)
         (score_at res a p u)"
  using assms(1,2,3,4)
proof (induction us arbitrary: res)
  case Nil
  then show ?case by simp
next
  case (Cons w ws)
  from Cons.prems(1) obtain r1 where
    st: "node_step g hs alphas profiles distances w res = Inr r1"
    and l: "node_loop g hs alphas profiles distances ws r1 = Inr res'"
    by (auto simp: bind_err_eq_Inr)
  show ?case
  proof (cases "w = u")
    case True
    with Cons.prems(3) have "u \<notin> set ws" by simp
    with l have "score_at res' a p u = score_at r1 a p u" by (rule node_loop_untouched)
    with node_step_effect [OF Cons.prems(2) st [unfolded True] assms(5), of a p] show ?thesis by simp
  next
    case False
    with Cons.prems(4) have u: "u \<in> set ws" by simp
    from node_step_touches [OF st] False have sh: "same_shape res r1"
      and e: "score_at r1 a p u = score_at res a p u" by auto
    from Cons.prems(3) have d: "distinct ws" by simp
    from Cons.IH [OF l wf_scores_shape [OF sh Cons.prems(2)] d u] e show ?thesis by simp
  qed
qed

text \<open>
  The result of a whole run, for a snapshot that lists no node twice: the entry of a node
  with an observed distance is its accumulated sum over its norm (to the power of the number
  of occurrences of the alpha).
\<close>

lemma delta_conformity_score:
  assumes "delta_conformity dg start delta alphas labels profile_size hs path_type = Inr res"
    and "time_slice dg start (start + delta) = Inr g"
    and "path_lengths dg g start (delta + start) path_type = Inr sp"
    and "distinct (g_nodes g)" and "u \<in> set (g_nodes g)"
    and "a \<in> set alphas" and "profile \<in> set (make_profiles labels profile_size)"
    and "dict_get_default [] (make_distances sp) u \<noteq> []"
  shows "score_at res a (join ''_'' profile) u
     = Some (accumulated g hs u alphas (make_profiles labels profile_size)
               (shells_of (dict_get_default [] (make_distances sp) u)) a (join ''_'' profile)
             / norm_of a (Max (snd ` set (dict_get_default [] (make_distances sp) u))) ^ count_list alphas a)"
proof -
  let ?profiles = "make_profiles labels profile_size"
  from assms(1,2,3) have nl: "node_loop g hs alphas ?profiles (make_distances sp) (g_nodes g)
               (init_res (g_nodes g) ?profiles alphas) = Inr res"
    by (auto simp: delta_conformity_def Let_def bind_err_Inr split: if_splits)
  from node_loop_score [OF nl init_res_wf assms(4,5,8), of a "join ''_'' profile"]
    init_res_score [OF assms(6,7,5)]
  show ?thesis by simp
qed


text \<open>
  Every shell that a run hands to the scorer is a non-empty list without repetition: the
  shells are filled from the keys of a dictionary.
\<close>

lemma dict_get_default_cases:
  "dict_get_default dflt d k = dflt \<or> (k, dict_get_default dflt d k) \<in> set d"
  by (auto simp: dict_get_default_def dest: map_of_SomeD split: option.splits)

lemma shells_of_distinct_aux:
  assumes "distinct (map fst ds)"
    and "\<forall>sh\<in>set acc. distinct (snd sh) \<and> snd sh \<noteq> [] \<and> set (snd sh) \<inter> fst ` set ds = {}"
  shows "\<forall>sh\<in>set (fold (\<lambda>(node, dst) d. AList.update dst (dict_get_default [] d dst @ [node]) d) ds acc).
           distinct (snd sh) \<and> snd sh \<noteq> []"
  using assms
proof (induction ds arbitrary: acc)
  case Nil
  then show ?case by simp
next
  case (Cons x xs)
  obtain node dst where x: "x = (node, dst)" by (cases x)
  define old where "old = dict_get_default [] acc dst"
  define acc' where "acc' = AList.update dst (old @ [node]) acc"
  have fresh: "node \<notin> fst ` set xs" and dxs: "distinct (map fst xs)"
    using Cons.prems(1) by (simp_all add: x)
  have old: "distinct old \<and> set old \<inter> fst ` set (x # xs) = {}"
  proof -
    from dict_get_default_cases [of "[]" acc dst]
    have "old = [] \<or> (dst, old) \<in> set acc" by (simp add: old_def)
    then show ?thesis
    proof
      assume "old = []"
      then show ?thesis by simp
    next
      assume "(dst, old) \<in> set acc"
      with Cons.prems(2) have "distinct (snd (dst, old))
          \<and> set (snd (dst, old)) \<inter> fst ` set (x # xs) = {}" by blast
      then show ?thesis by simp
    qed
  qed
  then have new: "distinct (old @ [node]) \<and> old @ [node] \<noteq> [] \<and> set (old @ [node]) \<inter> fst ` set xs = {}"
    using fresh by (auto simp: x)
  have "\<forall>sh\<in>set acc'. distinct (snd sh) \<and> snd sh \<noteq> [] \<and> set (snd sh) \<inter> fst ` set xs = {}"
  proof
    fix sh assume "sh \<in> set acc'"
    with set_update_subset [of dst "old @ [node]" acc]
    have "sh = (dst, old @ [node]) \<or> sh \<in> set acc" by (auto simp: acc'_def)
    then show "distinct (snd sh) \<and> snd sh \<noteq> [] \<and> set (snd sh) \<inter> fst ` set xs = {}"
    proof
      assume "sh = (dst, old @ [node])"
      with new show ?thesis by simp
    next
      assume "sh \<in> set acc"
      with Cons.prems(2) show ?thesis by fastforce
    qed
  qed
  from Cons.IH [OF dxs this] show ?case by (simp add: x acc'_def old_def)
qed

lemma shells_of_distinct:
  "distinct (map fst ds) \<Longrightarrow> \<forall>sh\<in>set (shells_of ds). distinct (snd sh) \<and> snd sh \<noteq> []"
  unfolding shells_of_def by (rule shells_of_distinct_aux) simp_all

lemma make_distances_distinct_aux:
  assumes "\<forall>e\<in>set D0. distinct (map fst (snd e))"
  shows "\<forall>e\<in>set (fold (\<lambda>((a, b), d) D. AList.update a (AList.update b d (dict_get_default [] D a)) D) sp D0).
           distinct (map fst (snd e))"
  using assms
proof (induction sp arbitrary: D0)
  case Nil
  then show ?case by simp
next
  case (Cons x xs)
  obtain a b d where x: "x = ((a, b), d)" by (cases x) auto
  define inner where "inner = AList.update b d (dict_get_default [] D0 a)"
  have "distinct (map fst (dict_get_default [] D0 a))"
    using dict_get_default_cases [of "[]" D0 a] Cons.prems by force
  then have inner: "distinct (map fst inner)"
    unfolding inner_def by (rule distinct_update)
  have "\<forall>e\<in>set (AList.update a inner D0). distinct (map fst (snd e))"
  proof
    fix e assume "e \<in> set (AList.update a inner D0)"
    with set_update_subset [of a inner D0] have "e = (a, inner) \<or> e \<in> set D0" by auto
    with inner Cons.prems show "distinct (map fst (snd e))" by auto
  qed
  from Cons.IH [OF this] show ?case by (simp add: x inner_def)
qed

lemma make_distances_distinct: "distinct (map fst (dict_get_default [] (make_distances sp) u))"
proof -
  have "\<forall>e\<in>set (make_distances sp). distinct (map fst (snd e))"
    unfolding make_distances_def by (rule make_distances_distinct_aux) simp
  with dict_get_default_cases [of "[]" "make_distances sp" u] show ?thesis by force
qed

lemma pipeline_shells_distinct:
  "\<forall>sh\<in>set (shells_of (dict_get_default [] (make_distances sp) u)). distinct (snd sh) \<and> snd sh \<noteq> []"
  by (rule shells_of_distinct [OF make_distances_distinct])

end
